theory Spec2Isabelle
  imports Main "HOL-Library.AList"
begin

section \<open>Python string primitives\<close>

text \<open>
  The selector and the formatter handle the strings of a story (title, URL, domain) and
  the tables of the configuration.  There a Python \<open>str\<close> is modelled as a \<open>string\<close>
  (a list of 8-bit characters), text outside ASCII (the Cyrillic labels, the no-break
  space) appearing as its UTF-8 bytes, and \<open>lower\<close> is modelled on the ASCII range: a
  character from 128 on has no case.  The enricher parses generated text with the
  Unicode-aware methods of \<open>str\<close>; its strings are lists of code points, introduced
  with the enricher below.
\<close>

definition dquote :: char where
  "dquote = CHR 0x22"

definition squote :: char where
  "squote = CHR 0x27"

definition newline :: char where
  "newline = CHR 0x0A"

definition is_digit :: "char \<Rightarrow> bool" where
  \<comment> \<open>an ASCII digit, as in \<open>string.digits\<close>\<close>
  "is_digit c = (let n = (of_char c :: nat) in 48 \<le> n \<and> n \<le> 57)"

definition is_alpha :: "char \<Rightarrow> bool" where
  \<comment> \<open>an ASCII letter, as in \<open>string.ascii_letters\<close>\<close>
  "is_alpha c = (let n = (of_char c :: nat) in (65 \<le> n \<and> n \<le> 90) \<or> (97 \<le> n \<and> n \<le> 122))"

definition lower_char :: "char \<Rightarrow> char" where
  "lower_char c =
     (case map_of (zip ''ABCDEFGHIJKLMNOPQRSTUVWXYZ'' ''abcdefghijklmnopqrstuvwxyz'') c of
        None \<Rightarrow> c
      | Some l \<Rightarrow> l)"

definition lower :: "string \<Rightarrow> string" where
  \<comment> \<open>\<open>s.lower()\<close>\<close>
  "lower s = map lower_char s"

definition startswith :: "'a list \<Rightarrow> 'a list \<Rightarrow> bool" where
  \<comment> \<open>\<open>s.startswith(p)\<close>\<close>
  "startswith s p = (take (length p) s = p)"

fun contains :: "string \<Rightarrow> string \<Rightarrow> bool" where
  \<comment> \<open>\<open>w in s\<close> for strings: \<open>w\<close> occurs in \<open>s\<close> as a contiguous substring\<close>
  "contains w [] = (w = [])"
| "contains w (c # cs) = (startswith (c # cs) w \<or> contains w cs)"

function replace_str :: "string \<Rightarrow> string \<Rightarrow> string \<Rightarrow> string" where
  \<comment> \<open>\<open>s.replace(old, new)\<close>: every occurrence of \<open>old\<close>, scanning from the left,
      occurrences not overlapping; an empty \<open>old\<close> matches before every character
      and at the end\<close>
  "replace_str old new [] = (if old = [] then new else [])"
| "replace_str old new (c # cs) =
     (if old = [] then new @ c # replace_str old new cs
      else if startswith (c # cs) old
        then new @ replace_str old new (drop (length old) (c # cs))
        else c # replace_str old new cs)"
  by pat_completeness auto
termination
  by (relation "measure (\<lambda>(old, new, s). length s)") auto


definition digit_char :: "nat \<Rightarrow> char" where
  "digit_char n = ''0123456789'' ! n"

function str_nat :: "nat \<Rightarrow> string" where
  "str_nat n = (if n < 10 then [digit_char n] else str_nat (n div 10) @ [digit_char (n mod 10)])"
  by pat_completeness auto
termination
  by (relation "measure id") auto

definition str_int :: "int \<Rightarrow> string" where
  \<comment> \<open>\<open>str(i)\<close> and \<open>f"{i}"\<close> for an int\<close>
  "str_int i = (if i < 0 then CHR ''-'' # str_nat (nat (- i)) else str_nat (nat i))"

section \<open>Stories\<close>

text \<open>
  A story is a Python dict.  \<open>_parse_hits\<close> creates it with the keys \<open>id\<close>,
  \<open>title\<close>, \<open>url\<close>, \<open>points\<close> and \<open>comments\<close>; \<open>select_stories\<close> adds
  \<open>score\<close> and \<open>domain\<close>, the enrichment step adds \<open>category\<close> and \<open>is_top\<close>.
  The code reads \<open>url\<close>, \<open>domain\<close>, \<open>category\<close> and \<open>is_top\<close> through truth tests
  and \<open>get\<close> with a falsy default only, so an absent key, \<open>None\<close>, the empty string
  and \<open>False\<close> behave alike: the record holds the empty string (or \<open>False\<close>) for
  all of them.
\<close>

record story =
  sid :: int
  title :: string
  url :: string
  points :: int
  comments :: int
  score :: int
  domain :: string
  category :: string
  is_top :: bool

datatype py_error = ValueError

section \<open>hndigest/hn.py: selecting stories\<close>

definition JOB_WORDS :: "string list" where
  "JOB_WORDS = [''hiring'', ''who is hiring'', ''who wants to be hired'', ''freelancer'',
     ''job'', ''career'']"

definition scheme_char :: "char \<Rightarrow> bool" where
  "scheme_char c = (is_alpha c \<or> is_digit c \<or> c \<in> set ''+-.'')"

definition urlparse_netloc :: "string \<Rightarrow> py_error + string" where
  \<comment> \<open>\<open>urlparse(url).netloc\<close> of the standard library (\<open>urllib.parse.urlsplit\<close>):
      leading control characters and spaces are dropped, TAB, CR and LF are removed, a
      scheme (a letter, then letters, digits, \<open>+\<close>, \<open>-\<close>, \<open>.\<close>, up to the first colon) is
      split off, and after \<open>//\<close> the netloc runs to the first \<open>/\<close>, \<open>?\<close> or \<open>#\<close>.
      A netloc with one square bracket but not the other raises \<open>ValueError\<close>; what
      stands between two brackets is not looked at.\<close>
  "urlparse_netloc url0 =
     (let url1 = filter (\<lambda>c. c \<notin> set [CHR 0x09, CHR 0x0A, CHR 0x0D])
                   (dropWhile (\<lambda>c. (of_char c :: nat) \<le> 32) url0);
          pre = takeWhile (\<lambda>c. c \<noteq> CHR '':'') url1;
          url2 = (if CHR '':'' \<in> set url1 \<and> pre \<noteq> [] \<and> is_alpha (hd pre) \<and> list_all scheme_char pre
                  then drop (length pre + 1) url1 else url1);
          netloc = (if take 2 url2 = ''//''
                    then takeWhile (\<lambda>c. c \<notin> set ''/?#'') (drop 2 url2) else [])
      in if (CHR ''['' \<in> set netloc \<and> CHR '']'' \<notin> set netloc)
            \<or> (CHR '']'' \<in> set netloc \<and> CHR ''['' \<notin> set netloc)
         then Inl ValueError else Inr netloc)"

definition story_domain :: "string \<Rightarrow> py_error + string" where
  \<comment> \<open>\<open>urlparse(s["url"]).netloc.replace("www.", "") if s["url"] else ""\<close>\<close>
  "story_domain u =
     (if u \<noteq> [] then
        (case urlparse_netloc u of Inl e \<Rightarrow> Inl e | Inr n \<Rightarrow> Inr (replace_str ''www.'' [] n))
      else Inr [])"

fun filter_stories :: "story list \<Rightarrow> story list \<Rightarrow> py_error + story list" where
  \<comment> \<open>the first loop of \<open>select_stories\<close>; the second argument is \<open>filtered\<close>\<close>
  "filter_stories [] filtered = Inr filtered"
| "filter_stories (s # ss) filtered =
     (let title_lower = lower (title s) in
      if list_ex (\<lambda>w. contains w title_lower) JOB_WORDS then filter_stories ss filtered
      else if url s = [] \<and> length (title s) < 20 then filter_stories ss filtered
      else (case story_domain (url s) of
              Inl e \<Rightarrow> Inl e
            | Inr d \<Rightarrow>
                filter_stories ss
                  (filtered @ [s\<lparr>score := points s + comments s * 2, domain := d\<rparr>])))"

definition domain_get :: "(string \<rightharpoonup> nat) \<Rightarrow> string \<Rightarrow> nat" where
  \<comment> \<open>\<open>domain_count.get(d, 0)\<close>\<close>
  "domain_get domain_count d = (case domain_count d of None \<Rightarrow> 0 | Some n \<Rightarrow> n)"

fun cap_domains :: "story list \<Rightarrow> (string \<rightharpoonup> nat) \<Rightarrow> story list \<Rightarrow> int \<Rightarrow> story list" where
  \<comment> \<open>the second loop of \<open>select_stories\<close>: at most 3 per domain; the loop is left
      when, after a story has been looked at, \<open>len(result) >= limit\<close>\<close>
  "cap_domains [] domain_count result limit = result"
| "cap_domains (s # ss) domain_count result limit =
     (let d = domain s;
          admit = (domain_get domain_count d < 3);
          result' = (if admit then result @ [s] else result);
          domain_count' = (if admit then domain_count(d \<mapsto> domain_get domain_count d + 1)
                           else domain_count)
      in if int (length result') \<ge> limit then result'
         else cap_domains ss domain_count' result' limit)"

definition select_stories :: "story list \<Rightarrow> int \<Rightarrow> py_error + story list" where
  \<comment> \<open>\<open>filtered.sort(key=score, reverse=True)\<close> is stable: stories of equal score keep
      their order, as \<open>sort_key\<close> on the negated score does\<close>
  "select_stories stories limit =
     (case filter_stories stories [] of
        Inl e \<Rightarrow> Inl e
      | Inr filtered \<Rightarrow>
          Inr (cap_domains (sort_key (\<lambda>x. - score x) filtered) Map.empty [] limit))"

section \<open>hn_digest/config.py: tables and the keyword classifier\<close>

text \<open>
  The dictionaries of the configuration, as association lists in the order the source
  writes them (a Python dict iterates in insertion order).  Text outside ASCII is given
  by its UTF-8 bytes.
\<close>

definition HN_ITEM :: "int \<Rightarrow> string" where
  \<comment> \<open>\<open>HN_ITEM.format(id)\<close>\<close>
  "HN_ITEM i = ''https://news.ycombinator.com/item?id='' @ str_int i"


definition LABELS :: "(string \<times> (string \<times> string) list) list" where
  "LABELS = [
     (''points'', [
        (''uz'', ''ball''),
        (''ru'', [CHR 0xD0, CHR 0xB1, CHR 0xD0, CHR 0xB0, CHR 0xD0, CHR 0xBB, CHR 0xD0, CHR 0xBB, CHR 0xD0, CHR 0xBE, CHR 0xD0, CHR 0xB2]),
        (''en'', ''points'')]),
     (''comments'', [
        (''uz'', ''izoh''),
        (''ru'', [CHR 0xD0, CHR 0xBA, CHR 0xD0, CHR 0xBE, CHR 0xD0, CHR 0xBC, CHR 0xD0, CHR 0xBC, CHR 0x2E]),
        (''en'', ''comments'')])]"







section \<open>hn_digest/formatter.py: assembling the digest\<close>

record channel =
  ch_id :: string
  telegram :: string
  ch_title :: string
  language :: string
  prompt :: string
  footer :: string
  first_issue_date :: string
  days :: int
  ch_limit :: int
  min_points :: int


definition nbsp :: string where
  \<comment> \<open>U+00A0\<close>
  "nbsp = [CHR 0xC2, CHR 0xA0]"

definition middot :: string where
  \<comment> \<open>U+00B7\<close>
  "middot = [CHR 0xC2, CHR 0xB7]"


definition escape_html :: "string \<Rightarrow> string" where
  "escape_html text =
     replace_str ''>'' ''&gt;'' (replace_str ''<'' ''&lt;'' (replace_str ''&'' ''&amp;'' text))"


definition label :: "string \<Rightarrow> string \<Rightarrow> string" where
  \<comment> \<open>\<open>LABELS[key].get(lang, key)\<close> for the keys \<open>points\<close> and \<open>comments\<close>\<close>
  "label key lang =
     (case map_of LABELS key of
        None \<Rightarrow> key
      | Some names \<Rightarrow> (case map_of names lang of None \<Rightarrow> key | Some n \<Rightarrow> n))"

definition format_story_lines ::
  "story \<Rightarrow> (int \<rightharpoonup> string) \<Rightarrow> (int \<rightharpoonup> string) \<Rightarrow> string \<Rightarrow> string list" where
  "format_story_lines s titles summaries lang =
     (let title_html = escape_html (case titles (sid s) of None \<Rightarrow> title s | Some t \<Rightarrow> t);
          hn_url = HN_ITEM (sid s);
          lbl_points = label ''points'' lang;
          lbl_comments = label ''comments'' lang;
          is_hn_thread = (category s = ''show_hn'' \<or> category s = ''ask_hn'');
          title_line =
            (if is_hn_thread
               then ''<b><a href='' @ [dquote] @ hn_url @ [dquote] @ ''>'' @ title_html @ ''</a></b>''
             else if url s \<noteq> []
               then ''<b><a href='' @ [dquote] @ url s @ [dquote] @ ''>'' @ title_html @ ''</a></b>''
             else ''<b>'' @ title_html @ ''</b>'');
          summary_text = (case summaries (sid s) of None \<Rightarrow> [] | Some t \<Rightarrow> t);
          summary_lines =
            (if \<not> is_hn_thread \<and> summary_text \<noteq> [] then [escape_html summary_text] else []);
          meta_line =
            (if is_hn_thread
               then ''<i>'' @ str_int (points s) @ nbsp @ lbl_points @ '' '' @ middot @ '' ''
                      @ str_int (comments s) @ nbsp @ lbl_comments @ ''</i>''
             else ''<i>'' @ str_int (points s) @ nbsp @ lbl_points @ '' '' @ middot
                      @ '' <a href='' @ [dquote] @ hn_url @ [dquote] @ ''>''
                      @ str_int (comments s) @ nbsp @ lbl_comments @ ''</a></i>'')
      in [title_line] @ summary_lines @ [meta_line])"












section \<open>hn_digest/process.py: the enricher and its cache\<close>

subsection \<open>Text as code points\<close>

text \<open>
  The enricher reads the text of the generation API and of its cache files with the
  Unicode-aware methods of \<open>str\<close>.  Here a \<open>str\<close> is the list of its code points
  (integers from 0 to 0x10FFFF, as \<open>ord\<close> gives them), and an ASCII literal of the
  source is written \<open>ascii ''...''\<close>.  White space is the same in every version of
  Python 3 the source runs on, and is defined.  What follows the version of the Unicode
  database (the digits of \<open>str.isdigit\<close>, the decimal value \<open>int\<close> reads from a digit,
  \<open>str.lower\<close>) and the interpreter's limit on the digits of an integer literal are
  inputs of the model, together with the two names that \<open>process.py\<close> imports from
  outside the sources: \<open>VALID_CATEGORIES\<close> of \<open>hn_digest.categorize\<close> and the hex
  digest of \<open>hashlib.md5\<close>.  The digest is taken of encoded text, so it works on byte
  strings, as do the cache keys.
\<close>

type_synonym pystr = "int list"

abbreviation ord :: "char \<Rightarrow> int" where
  "ord \<equiv> of_char"

definition ascii :: "string \<Rightarrow> pystr" where
  "ascii s = map of_char s"

record story_result =
  res_category :: pystr
  res_is_top :: bool
  translation :: pystr
  summary :: pystr

record externals =
  VALID_CATEGORIES :: "pystr set"
  md5_hexdigest :: "string \<Rightarrow> string"
  isdigit :: "int \<Rightarrow> bool"               \<comment> \<open>\<open>c.isdigit()\<close> for a code point\<close>
  decimal :: "int \<Rightarrow> int option"         \<comment> \<open>the value of a decimal digit, for \<open>int\<close>\<close>
  str_lower :: "pystr \<Rightarrow> pystr"          \<comment> \<open>\<open>s.lower()\<close>\<close>
  int_max_str_digits :: int               \<comment> \<open>\<open>sys.get_int_max_str_digits()\<close>, 0 for no limit\<close>

definition isspace :: "int \<Rightarrow> bool" where
  \<comment> \<open>\<open>c.isspace()\<close> for a code point, which is what \<open>str.strip()\<close> removes: TAB to CR,
      FS to the space, NEL, the no-break space, the ogham space, the spaces U+2000 to
      U+200A, the line and paragraph separators, the narrow no-break space, the medium
      mathematical space and the ideographic space\<close>
  "isspace c =
     ((0x09 \<le> c \<and> c \<le> 0x0D) \<or> (0x1C \<le> c \<and> c \<le> 0x20) \<or> c = 0x85 \<or> c = 0xA0
      \<or> c = 0x1680 \<or> (0x2000 \<le> c \<and> c \<le> 0x200A) \<or> c = 0x2028 \<or> c = 0x2029
      \<or> c = 0x202F \<or> c = 0x205F \<or> c = 0x3000)"

definition strip_with :: "('a \<Rightarrow> bool) \<Rightarrow> 'a list \<Rightarrow> 'a list" where
  "strip_with p s = rev (dropWhile p (rev (dropWhile p s)))"

definition strip :: "pystr \<Rightarrow> pystr" where
  \<comment> \<open>\<open>s.strip()\<close>: white space removed at both ends\<close>
  "strip s = strip_with isspace s"

definition strip_chars :: "pystr \<Rightarrow> pystr \<Rightarrow> pystr" where
  \<comment> \<open>\<open>s.strip(chars)\<close>: the characters of \<open>chars\<close> removed at both ends\<close>
  "strip_chars chars s = strip_with (\<lambda>c. c \<in> set chars) s"

fun split_char :: "'a \<Rightarrow> 'a list \<Rightarrow> 'a list list" where
  \<comment> \<open>\<open>s.split(d)\<close> for a one-character separator: never empty, \<open>''''\<close> gives \<open>['''']\<close>\<close>
  "split_char d [] = [[]]"
| "split_char d (c # cs) =
     (if c = d then [] # split_char d cs
      else (case split_char d cs of [] \<Rightarrow> [[c]] | p # ps \<Rightarrow> (c # p) # ps))"

definition split_first :: "'a \<Rightarrow> 'a list \<Rightarrow> 'a list list" where
  \<comment> \<open>\<open>s.split(d, 1)\<close>: cut at the first separator only; one part when there is none\<close>
  "split_first d s =
     (case dropWhile (\<lambda>c. c \<noteq> d) s of
        [] \<Rightarrow> [s]
      | _ # rest \<Rightarrow> [takeWhile (\<lambda>c. c \<noteq> d) s, rest])"

subsection \<open>Reading an integer\<close>

text \<open>
  \<open>int(s)\<close> for a \<open>str\<close>, as CPython computes it.  The text is first brought to ASCII:
  a code point below 127 stays, white space becomes a space, a decimal digit becomes its
  ASCII digit, and anything else a question mark (at which the conversion stops; the
  question mark is refused below in any case).  Of the ASCII text the white space of the
  C locale is skipped at both ends, then come an optional sign and groups of digits
  with single underscores between them.  A literal of more than 640 digits that exceeds
  a positive digit limit is refused.
\<close>

definition to_ascii :: "externals \<Rightarrow> int \<Rightarrow> int" where
  "to_ascii ext c =
     (if c < 127 then c
      else if isspace c then ord CHR '' ''
      else (case decimal ext c of Some d \<Rightarrow> ord CHR ''0'' + d | None \<Rightarrow> ord CHR ''?''))"

definition c_isspace :: "int \<Rightarrow> bool" where
  \<comment> \<open>\<open>Py_ISSPACE\<close>: TAB, LF, VT, FF, CR and the space\<close>
  "c_isspace c = ((9 \<le> c \<and> c \<le> 13) \<or> c = 32)"

definition ascii_digit :: "int \<Rightarrow> bool" where
  "ascii_digit c = (ord CHR ''0'' \<le> c \<and> c \<le> ord CHR ''9'')"

definition int_literal :: "pystr \<Rightarrow> bool" where
  \<comment> \<open>groups of ASCII digits, none empty, single underscores between the groups\<close>
  "int_literal body =
     list_all (\<lambda>g. g \<noteq> [] \<and> list_all ascii_digit g) (split_char (ord CHR ''_'') body)"

definition py_int :: "externals \<Rightarrow> pystr \<Rightarrow> int option" where
  \<comment> \<open>\<open>int(s)\<close>, base 10; \<open>None\<close> where Python raises \<open>ValueError\<close>\<close>
  "py_int ext s =
     (let t = dropWhile c_isspace (map (to_ascii ext) s);
          neg = (case t of [] \<Rightarrow> False | c # _ \<Rightarrow> c = ord CHR ''-'');
          unsigned = (case t of
                        [] \<Rightarrow> []
                      | c # r \<Rightarrow> if c = ord CHR ''-'' \<or> c = ord CHR ''+'' then r else t);
          body = rev (dropWhile c_isspace (rev unsigned));
          digits = filter (\<lambda>c. c \<noteq> ord CHR ''_'') body;
          v = foldl (\<lambda>a c. 10 * a + (c - ord CHR ''0'')) 0 digits
      in if int_literal body
            \<and> \<not> (640 < int (length digits) \<and> 0 < int_max_str_digits ext
                  \<and> int_max_str_digits ext < int (length digits))
         then Some (if neg then - v else v) else None)"

subsection \<open>Fields, cache lines and response lines\<close>

fun extract_parts :: "pystr list \<Rightarrow> pystr \<Rightarrow> pystr" where
  \<comment> \<open>the loop of \<open>_extract_field\<close> over the comma-separated parts; the part tested
      starts with \<open>field=\<close>, so \<open>part.split("=", 1)\<close> has its two elements\<close>
  "extract_parts [] field = []"
| "extract_parts (part # parts) field =
     (let p = strip part in
      if startswith p (field @ ascii ''='')
        then (case split_first (ord CHR ''='') p of _ # v # _ \<Rightarrow> strip v | _ \<Rightarrow> [])
        else extract_parts parts field)"

definition extract_field :: "pystr \<Rightarrow> pystr \<Rightarrow> pystr" where
  \<comment> \<open>Modelled from the spec: \<open>_extract_field\<close> of \<open>hn_digest/categorize.py\<close>, a file
      that is not among the sources.  The spec gives the response as comma-separated
      \<open>key=value\<close> fields; the definition follows \<open>_extract_field\<close> of the sibling
      package, \<open>hndigest/categorize.py\<close>, line by line.\<close>
  "extract_field text field = extract_parts (split_char (ord CHR '','') text) field"

definition content_hash :: "externals \<Rightarrow> string \<Rightarrow> string" where
  "content_hash ext content = take 8 (md5_hexdigest ext content)"

definition cache_key_for_story :: "externals \<Rightarrow> story \<Rightarrow> string \<Rightarrow> string \<Rightarrow> string" where
  "cache_key_for_story ext s content lang =
     (let content_h = (if content \<noteq> [] then content_hash ext content else ''empty'');
          raw = ''process_v1|'' @ str_int (sid s) @ ''|'' @ title s @ ''|'' @ content_h @ ''|'' @ lang
      in md5_hexdigest ext raw)"

definition parse_cache_line :: "externals \<Rightarrow> pystr \<Rightarrow> story_result option" where
  "parse_cache_line ext val =
     (let cat = extract_field val (ascii ''category'');
          rank = extract_field val (ascii ''rank'');
          title_v = extract_field val (ascii ''title'');
          summary_v = extract_field val (ascii ''summary'')
      in if cat \<notin> VALID_CATEGORIES ext then None
         else Some \<lparr>res_category = cat, res_is_top = (rank = ascii ''top''),
                     translation = title_v, summary = summary_v\<rparr>)"

definition serialize_result :: "story_result \<Rightarrow> pystr" where
  "serialize_result r =
     ascii ''category='' @ res_category r
       @ ascii '',rank='' @ (if res_is_top r then ascii ''top'' else ascii ''regular'')
       @ ascii '',title='' @ translation r @ ascii '',summary='' @ summary r"

definition parse_result_line :: "externals \<Rightarrow> pystr \<Rightarrow> (int \<times> story_result) option" where
  \<comment> \<open>\<open>None\<close> for each \<open>return None\<close>, the \<open>ValueError\<close> of \<open>int\<close> among them\<close>
  "parse_result_line ext line0 =
     (let line = strip line0 in
      if line = [] \<or> \<not> isdigit ext (hd line) then None
      else (case split_first (ord CHR ''.'') line of
              [p0, p1] \<Rightarrow>
                (case py_int ext (strip p0) of
                   None \<Rightarrow> None
                 | Some n \<Rightarrow>
                     (let num = n - 1;
                          rest = strip p1;
                          rest_lower = str_lower ext rest;
                          cat = extract_field rest_lower (ascii ''category'');
                          rank = extract_field rest_lower (ascii ''rank'');
                          title_v = extract_field rest (ascii ''title'');
                          summary_v = extract_field rest (ascii ''summary'');
                          cat' = (if cat \<notin> VALID_CATEGORIES ext then ascii ''other'' else cat)
                      in Some (num, \<lparr>res_category = cat', res_is_top = (rank = ascii ''top''),
                                     translation = strip_chars [ord dquote, ord squote] title_v,
                                     summary = strip_chars [ord dquote, ord squote] summary_v\<rparr>)))
            | _ \<Rightarrow> None))"

subsection \<open>The cache files\<close>

text \<open>
  The cache directory is a map from cache key to the text of the file (the file name is
  the key with a fixed directory and suffix), every file holding UTF-8.  Creating the
  directory and opening a file are taken to succeed.  \<open>write_text\<close> opens the file,
  which empties it, and encodes the text: text with a surrogate code point has no
  UTF-8 encoding, the encoder raises \<open>UnicodeEncodeError\<close>, and the file stays empty.
  The line feed is written as it is, as on a POSIX system.  \<open>read_text\<close> reads with
  universal newlines: a carriage return, with the line feed that follows it if one
  does, comes back as a line feed.
\<close>

type_synonym cache = "string \<rightharpoonup> pystr"

datatype encode_error = UnicodeEncodeError

definition encodable :: "pystr \<Rightarrow> bool" where
  \<comment> \<open>the text has a UTF-8 encoding: no code point is a surrogate\<close>
  "encodable s = list_all (\<lambda>c. \<not> (0xD800 \<le> c \<and> c \<le> 0xDFFF)) s"

definition write_text :: "string \<Rightarrow> pystr \<Rightarrow> cache \<Rightarrow> (encode_error + unit) \<times> cache" where
  \<comment> \<open>\<open>cache_file.write_text(data, encoding="utf-8")\<close>, with the cache afterwards\<close>
  "write_text key data cache =
     (if encodable data then (Inr (), cache(key \<mapsto> data))
      else (Inl UnicodeEncodeError, cache(key \<mapsto> [])))"

fun universal_newlines :: "pystr \<Rightarrow> pystr" where
  "universal_newlines [] = []"
| "universal_newlines [c] = [if c = 13 then 10 else c]"
| "universal_newlines (c # d # ds) =
     (if c = 13 \<and> d = 10 then 10 # universal_newlines ds
      else if c = 13 then 10 # universal_newlines (d # ds)
      else c # universal_newlines (d # ds))"

definition read_text :: "cache \<Rightarrow> string \<Rightarrow> pystr option" where
  \<comment> \<open>\<open>cache_file.read_text(encoding="utf-8")\<close> where \<open>cache_file.exists()\<close>, else
      \<open>None\<close>\<close>
  "read_text cache key = map_option universal_newlines (cache key)"

text \<open>
  A result dict is an association list in insertion order, assignment to a key it holds
  keeping the key's place, as a Python dict does.
\<close>

type_synonym results = "(int \<times> story_result) list"

definition story_content :: "(int \<rightharpoonup> string) \<Rightarrow> story \<Rightarrow> string" where
  \<comment> \<open>\<open>contents.get(s["id"], "")\<close>\<close>
  "story_content contents s = (case contents (sid s) of None \<Rightarrow> [] | Some c \<Rightarrow> c)"

definition story_key :: "externals \<Rightarrow> (int \<rightharpoonup> string) \<Rightarrow> string \<Rightarrow> story \<Rightarrow> string" where
  "story_key ext contents lang s = cache_key_for_story ext s (story_content contents s) lang"

definition cached_result ::
  "externals \<Rightarrow> cache \<Rightarrow> (int \<rightharpoonup> string) \<Rightarrow> string \<Rightarrow> story \<Rightarrow> story_result option" where
  \<comment> \<open>what the cache holds for a story: \<open>None\<close> when the file does not exist or its
      stripped text does not parse\<close>
  "cached_result ext cache contents lang s =
     (case read_text cache (story_key ext contents lang s) of
        None \<Rightarrow> None
      | Some val \<Rightarrow> parse_cache_line ext (strip val))"

definition read_story :: "externals \<Rightarrow> cache \<Rightarrow> (int \<rightharpoonup> string) \<Rightarrow> string \<Rightarrow> story \<Rightarrow> results \<Rightarrow> results" where
  \<comment> \<open>one round of the cache-reading loop\<close>
  "read_story ext cache contents lang s cached =
     (case cached_result ext cache contents lang s of
        None \<Rightarrow> cached
      | Some r \<Rightarrow> AList.update (sid s) r cached)"

definition read_cache :: "externals \<Rightarrow> cache \<Rightarrow> (int \<rightharpoonup> string) \<Rightarrow> string \<Rightarrow> story list \<Rightarrow> results" where
  "read_cache ext cache contents lang stories =
     fold (read_story ext cache contents lang) stories []"

subsection \<open>The response and the attempts\<close>

definition apply_line ::
  "externals \<Rightarrow> story list \<Rightarrow> (int \<rightharpoonup> string) \<Rightarrow> string \<Rightarrow> pystr \<Rightarrow> results \<times> cache
     \<Rightarrow> (encode_error + results) \<times> cache" where
  \<comment> \<open>one round of the loop over the lines of the response, from the result dict and the
      cache before it: the result dict after it, or the exception that writing the cache
      file raises, and the cache after it\<close>
  "apply_line ext stories contents lang line st =
     (case parse_result_line ext line of
        None \<Rightarrow> (Inr (fst st), snd st)
      | Some (num, r) \<Rightarrow>
          if \<not> (0 \<le> num \<and> num < int (length stories)) then (Inr (fst st), snd st)
          else (let s = stories ! nat num;
                    results = AList.update (sid s) r (fst st)
                in (case write_text (story_key ext contents lang s) (serialize_result r) (snd st) of
                      (Inl e, cache') \<Rightarrow> (Inl e, cache')
                    | (Inr u, cache') \<Rightarrow> (Inr results, cache'))))"

fun response_loop ::
  "externals \<Rightarrow> story list \<Rightarrow> (int \<rightharpoonup> string) \<Rightarrow> string \<Rightarrow> pystr list \<Rightarrow> results \<times> cache
     \<Rightarrow> (encode_error + results) \<times> cache" where
  \<comment> \<open>\<open>for line in response_text.split("\n")\<close>, left by an exception\<close>
  "response_loop ext stories contents lang [] st = (Inr (fst st), snd st)"
| "response_loop ext stories contents lang (line # lines) st =
     (case apply_line ext stories contents lang line st of
        (Inl e, cache') \<Rightarrow> (Inl e, cache')
      | (Inr results, cache') \<Rightarrow> response_loop ext stories contents lang lines (results, cache'))"

definition parse_response ::
  "externals \<Rightarrow> story list \<Rightarrow> (int \<rightharpoonup> string) \<Rightarrow> string \<Rightarrow> pystr \<Rightarrow> cache
     \<Rightarrow> (encode_error + results) \<times> cache" where
  \<comment> \<open>\<open>response_text\<close> is the generated text, stripped\<close>
  "parse_response ext stories contents lang text cache =
     response_loop ext stories contents lang (split_char (ord newline) (strip text)) ([], cache)"

datatype api_response =
    Ok pystr            \<comment> \<open>the request succeeded: the generated text of the reply\<close>
  | Status int          \<comment> \<open>\<open>raise_for_status\<close> raised \<open>HTTPStatusError\<close> with this code\<close>
  | Failure             \<comment> \<open>any other exception of the request or of reading the reply\<close>

datatype event =
    ApiCall nat         \<comment> \<open>\<open>session.post\<close> of the generation API, with the attempt's number\<close>
  | Sleep int           \<comment> \<open>\<open>time.sleep(wait)\<close>\<close>

fun attempts ::
  "externals \<Rightarrow> (nat \<Rightarrow> api_response) \<Rightarrow> cache \<Rightarrow> story list \<Rightarrow> (int \<rightharpoonup> string) \<Rightarrow> string
     \<Rightarrow> results \<Rightarrow> nat \<Rightarrow> nat \<Rightarrow> results \<times> cache \<times> event list" where
  \<comment> \<open>\<open>for attempt in range(3)\<close>, with the rounds left and the attempt's number; after
      the loop \<open>cached\<close> is returned, also when the loop is left on the exception of a
      cache write\<close>
  "attempts ext gen cache stories contents lang cached 0 attempt = (cached, cache, [])"
| "attempts ext gen cache stories contents lang cached (Suc left) attempt =
     (case gen attempt of
        Ok text \<Rightarrow>
          (case parse_response ext stories contents lang text cache of
             (Inr res, cache') \<Rightarrow> (res, cache', [ApiCall attempt])
           | (Inl e, cache') \<Rightarrow> (cached, cache', [ApiCall attempt]))
      | Status code \<Rightarrow>
          if code = 429 then
            (let wait = (int attempt + 1) * 10;
                 (res, cache', evs) =
                    attempts ext gen cache stories contents lang cached left (Suc attempt)
             in (res, cache', ApiCall attempt # Sleep wait # evs))
          else (cached, cache, [ApiCall attempt])
      | Failure \<Rightarrow> (cached, cache, [ApiCall attempt]))"

definition process_stories ::
  "externals \<Rightarrow> (nat \<Rightarrow> api_response) \<Rightarrow> cache \<Rightarrow> string \<Rightarrow> story list \<Rightarrow> (int \<rightharpoonup> string)
     \<Rightarrow> channel \<Rightarrow> results \<times> cache \<times> event list" where
  \<comment> \<open>\<open>gen\<close> answers the attempts, numbered from 0; the result is the returned dict, the
      cache afterwards, and the calls and sleeps in the order they happen\<close>
  "process_stories ext gen cache api_key stories contents ch =
     (if api_key = [] \<or> stories = [] then ([], cache, [])
      else (let cached = read_cache ext cache contents (language ch) stories
            in if length cached = length stories then (cached, cache, [])
               else attempts ext gen cache stories contents (language ch) cached 3 0))"

subsection \<open>Notions the theorems use\<close>


definition line_index :: "externals \<Rightarrow> pystr \<Rightarrow> int option" where
  \<comment> \<open>the leading index of a response line: the integer \<open>int\<close> reads from the text before the
      first dot of the stripped line\<close>
  "line_index ext line = py_int ext (strip (takeWhile (\<lambda>c. c \<noteq> ord CHR ''.'') (strip line)))"

definition line_rest :: "pystr \<Rightarrow> pystr" where
  \<comment> \<open>the text after the first dot of the stripped line, stripped: \<open>rest\<close>\<close>
  "line_rest line = strip (drop 1 (dropWhile (\<lambda>c. c \<noteq> ord CHR ''.'') (strip line)))"

definition result_of_rest :: "externals \<Rightarrow> pystr \<Rightarrow> story_result" where
  \<comment> \<open>the \<open>StoryResult\<close> that \<open>_parse_result_line\<close> builds from \<open>rest\<close>\<close>
  "result_of_rest ext rest =
     \<lparr>res_category = (if extract_field (str_lower ext rest) (ascii ''category'') \<notin> VALID_CATEGORIES ext
                       then ascii ''other''
                       else extract_field (str_lower ext rest) (ascii ''category'')),
      res_is_top = (extract_field (str_lower ext rest) (ascii ''rank'') = ascii ''top''),
      translation = strip_chars [ord dquote, ord squote] (extract_field rest (ascii ''title'')),
      summary = strip_chars [ord dquote, ord squote] (extract_field rest (ascii ''summary''))\<rparr>"

definition plain_text :: "pystr \<Rightarrow> bool" where
  \<comment> \<open>text that neither starts nor ends with white space and holds no carriage return\<close>
  "plain_text t = (strip t = t \<and> 13 \<notin> set t)"

definition rstrip_with :: "('a \<Rightarrow> bool) \<Rightarrow> 'a list \<Rightarrow> 'a list" where
  \<comment> \<open>the right half of \<open>strip_with\<close>\<close>
  "rstrip_with p s = rev (dropWhile p (rev s))"

definition well_formed :: "externals \<Rightarrow> story_result \<Rightarrow> bool" where
  \<comment> \<open>what holds of every result \<open>_parse_result_line\<close> builds, once \<open>other\<close> is a valid
      category and no valid category holds a carriage return: a valid category
      without white space around it, and fields that are free of commas\<close>
  "well_formed ext r =
     (res_category r \<in> VALID_CATEGORIES ext \<and> strip (res_category r) = res_category r
      \<and> 13 \<notin> set (res_category r)
      \<and> ord CHR '','' \<notin> set (res_category r) \<and> ord CHR '','' \<notin> set (translation r)
      \<and> ord CHR '','' \<notin> set (summary r))"

definition cache_agrees ::
  "externals \<Rightarrow> story list \<Rightarrow> (int \<rightharpoonup> string) \<Rightarrow> string \<Rightarrow> results \<times> cache \<Rightarrow> bool" where
  \<comment> \<open>the loop invariant of the response loop: the cache file of every story that has an
      entry in the result dict holds that entry, serialized, and the entry is well formed\<close>
  "cache_agrees ext stories contents lang st =
     (\<forall>s\<in>set stories. \<forall>r. map_of (fst st) (sid s) = Some r \<longrightarrow>
        snd st (story_key ext contents lang s) = Some (serialize_result r) \<and> well_formed ext r)"

section \<open>hn_digest/telegram.py and hndigest/telegram.py: posting the thread\<close>

text \<open>
  \<open>post_to_telegram\<close> catches every exception and returns the message id or \<open>None\<close>;
  \<open>send k\<close> is what it returns for the message at index \<open>k\<close> of the list.  The trace
  holds the requests in the order they are made.
\<close>

datatype tg_event =
    SendMessage string "int option"   \<comment> \<open>text and \<open>reply_to\<close>\<close>
  | EditMessage int string            \<comment> \<open>message id and new text\<close>

fun post_replies_plain :: "(nat \<Rightarrow> int option) \<Rightarrow> int \<Rightarrow> nat \<Rightarrow> string list \<Rightarrow> tg_event list \<Rightarrow> tg_event list" where
  \<comment> \<open>\<open>for msg in messages[1:]: post_to_telegram(token, chat_id, msg, reply_to=main_id)\<close>\<close>
  "post_replies_plain send main_id k [] evs = evs"
| "post_replies_plain send main_id k (msg # msgs) evs =
     post_replies_plain send main_id (Suc k) msgs (evs @ [SendMessage msg (Some main_id)])"

definition post_thread :: "(nat \<Rightarrow> int option) \<Rightarrow> string list \<Rightarrow> bool \<times> tg_event list" where
  \<comment> \<open>\<open>post_thread\<close> of \<open>hn_digest/telegram.py\<close>\<close>
  "post_thread send messages =
     (case messages of
        [] \<Rightarrow> (False, [])
      | m0 # replies \<Rightarrow>
          (case send 0 of
             None \<Rightarrow> (False, [SendMessage m0 None])
           | Some main_id \<Rightarrow>
               (True, post_replies_plain send main_id 1 replies [SendMessage m0 None])))"

fun post_replies ::
  "(nat \<Rightarrow> int option) \<Rightarrow> int \<Rightarrow> nat \<Rightarrow> string list \<Rightarrow> int list \<Rightarrow> tg_event list
     \<Rightarrow> int list \<times> tg_event list" where
  \<comment> \<open>the reply loop of \<open>hndigest/telegram.py\<close>, collecting \<open>reply_ids\<close>\<close>
  "post_replies send main_id k [] reply_ids evs = (reply_ids, evs)"
| "post_replies send main_id k (msg # msgs) reply_ids evs =
     post_replies send main_id (Suc k) msgs
       (case send k of None \<Rightarrow> reply_ids | Some msg_id \<Rightarrow> reply_ids @ [msg_id])
       (evs @ [SendMessage msg (Some main_id)])"

definition post_thread_edit ::
  "(nat \<Rightarrow> int option) \<Rightarrow> string list \<Rightarrow> string list
     \<Rightarrow> (string \<Rightarrow> string list \<Rightarrow> int list \<Rightarrow> string) option \<Rightarrow> bool \<times> tg_event list" where
  \<comment> \<open>\<open>post_thread\<close> of \<open>hndigest/telegram.py\<close>; \<open>reply_categories\<close> is \<open>[]\<close> for
      \<open>None\<close>, both being falsy; \<open>edit_message\<close> catches its exceptions and its result
      is not used\<close>
  "post_thread_edit send messages reply_categories edit_main_callback =
     (case messages of
        [] \<Rightarrow> (False, [])
      | m0 # replies \<Rightarrow>
          (case send 0 of
             None \<Rightarrow> (False, [SendMessage m0 None])
           | Some main_id \<Rightarrow>
               (let (reply_ids, evs) = post_replies send main_id 1 replies [] [SendMessage m0 None]
                in (True,
                    (case edit_main_callback of
                       None \<Rightarrow> evs
                     | Some cb \<Rightarrow>
                         if reply_categories \<noteq> [] \<and> length reply_ids = length reply_categories
                         then (let updated_text = cb m0 reply_categories reply_ids
                               in if updated_text \<noteq> m0
                                  then evs @ [EditMessage main_id updated_text] else evs)
                         else evs)))))"

definition is_send :: "tg_event \<Rightarrow> bool" where
  \<comment> \<open>the event is a \<open>sendMessage\<close> request\<close>
  "is_send ev = (case ev of SendMessage text reply_to \<Rightarrow> True | EditMessage i text \<Rightarrow> False)"

definition reply_ids_of :: "(nat \<Rightarrow> int option) \<Rightarrow> nat \<Rightarrow> int list" where
  \<comment> \<open>the ids \<open>send\<close> gives for the replies at the indices 1 to \<open>n\<close>, in order, the
      failed ones left out: what the loop collects in \<open>reply_ids\<close>\<close>
  "reply_ids_of send n = List.map_filter send [1..<Suc n]"

section \<open>Example inputs\<close>

definition ask_stories :: "story list" where
  \<comment> \<open>four discussion-only stories, as \<open>_parse_hits\<close> gives them\<close>
  "ask_stories =
     [\<lparr>sid = 1, title = ''Ask HN: what is your favourite editor'', url = [],
       points = 10, comments = 0, score = 0, domain = [], category = [], is_top = False\<rparr>,
      \<lparr>sid = 2, title = ''Ask HN: what is your favourite shell'', url = [],
       points = 40, comments = 0, score = 0, domain = [], category = [], is_top = False\<rparr>,
      \<lparr>sid = 3, title = ''Ask HN: what is your favourite font'', url = [],
       points = 30, comments = 0, score = 0, domain = [], category = [], is_top = False\<rparr>,
      \<lparr>sid = 4, title = ''Ask HN: what is your favourite book'', url = [],
       points = 20, comments = 0, score = 0, domain = [], category = [], is_top = False\<rparr>]"

definition ask_selected :: "story list" where
  \<comment> \<open>what \<open>select_stories\<close> returns for them: the three of highest score\<close>
  "ask_selected =
     [\<lparr>sid = 2, title = ''Ask HN: what is your favourite shell'', url = [],
       points = 40, comments = 0, score = 40, domain = [], category = [], is_top = False\<rparr>,
      \<lparr>sid = 3, title = ''Ask HN: what is your favourite font'', url = [],
       points = 30, comments = 0, score = 30, domain = [], category = [], is_top = False\<rparr>,
      \<lparr>sid = 4, title = ''Ask HN: what is your favourite book'', url = [],
       points = 20, comments = 0, score = 20, domain = [], category = [], is_top = False\<rparr>]"

text \<open>Posting: the reply at index 1 fails; every post succeeds; every post fails.\<close>

definition flaky_send :: "nat \<Rightarrow> int option" where
  "flaky_send k = (if k = 1 then None else Some (100 + int k))"

definition good_send :: "nat \<Rightarrow> int option" where
  "good_send k = Some (100 + int k)"

definition no_send :: "nat \<Rightarrow> int option" where
  "no_send k = None"

definition add_links :: "string \<Rightarrow> string list \<Rightarrow> int list \<Rightarrow> string" where
  \<comment> \<open>a callback that changes the root text\<close>
  "add_links text cats ids = text @ '' (links)''"




text \<open>
  The enricher: the English channel, the ten categories the prompt of \<open>process.py\<close>
  names as \<open>VALID_CATEGORIES\<close>, a digest function without collisions, the tables of
  the Unicode database cut down to ASCII and the full-width digits U+FF10 to U+FF19
  (where they are as Python has them), the digit limit Python starts with, one story,
  and a generation API that answers every attempt with HTTP 429.
\<close>

definition en_channel :: channel where
  "en_channel =
     \<lparr>ch_id = ''hn_en'', telegram = ''@HNDigestEn'', ch_title = ''Hacker News Digest'',
      language = ''en'', prompt = [], footer = ''Subscribe: @HNDigestEn'',
      first_issue_date = ''2026-02-07'', days = 7, ch_limit = 50, min_points = 50\<rparr>"

definition example_externals :: externals where
  "example_externals =
     \<lparr>VALID_CATEGORIES = set (map ascii [''ai'', ''code'', ''data'', ''science'', ''security'',
                               ''design'', ''business'', ''work'', ''learn'', ''other'']),
      md5_hexdigest = (\<lambda>raw. raw),
      isdigit = (\<lambda>c. (48 \<le> c \<and> c \<le> 57) \<or> (0xFF10 \<le> c \<and> c \<le> 0xFF19)),
      decimal = (\<lambda>c. if 48 \<le> c \<and> c \<le> 57 then Some (c - 48)
                      else if 0xFF10 \<le> c \<and> c \<le> 0xFF19 then Some (c - 0xFF10) else None),
      str_lower = map (\<lambda>c. if 65 \<le> c \<and> c \<le> 90 then c + 32 else c),
      int_max_str_digits = 4300\<rparr>"

definition one_story :: "story list" where
  "one_story = [\<lparr>sid = 7, title = ''T'', url = [], points = 1, comments = 1, score = 3,
                 domain = [], category = [], is_top = False\<rparr>]"






definition fullwidth_line :: pystr where
  "fullwidth_line = [0xFF11] @ ascii ''. category=ai, rank=top, title=Tea, summary=Time'' @ [0xA0]"





definition plain_reply :: "nat \<Rightarrow> api_response" where
  "plain_reply k = Ok (ascii ''1. category=ai, rank=top, title=Tea, summary=Time'')"

definition quoted_reply :: "nat \<Rightarrow> api_response" where
  "quoted_reply k =
     Ok (ascii ''1. category=ai, rank=top, title='' @ [ord dquote] @ ascii '' x'' @ [ord dquote]
           @ ascii '', summary=s'')"

definition cr_reply :: "nat \<Rightarrow> api_response" where
  "cr_reply k = Ok (ascii ''1. category=ai, rank=top, title=A'' @ [13] @ ascii ''B, summary=s'')"

definition broken :: "nat \<Rightarrow> api_response" where
  "broken k = Failure"

section \<open>The selector: limit, domain cap, domains\<close>

lemma cap_domains_subset:
  "x \<in> set (cap_domains ss dc res limit) \<Longrightarrow> x \<in> set res \<or> x \<in> set ss"
proof (induction ss arbitrary: dc res)
  case Nil
  then show ?case by simp
next
  case (Cons s ss)
  show ?case
  proof (cases "domain_get dc (domain s) < 3")
    case True
    let ?dc = "dc(domain s \<mapsto> domain_get dc (domain s) + 1)"
    have step: "cap_domains (s # ss) dc res limit =
        (if limit \<le> int (length (res @ [s])) then res @ [s]
         else cap_domains ss ?dc (res @ [s]) limit)"
      using True by (simp add: Let_def)
    show ?thesis
    proof (cases "limit \<le> int (length (res @ [s]))")
      case True
      with Cons.prems step show ?thesis by auto
    next
      case False
      with Cons.prems step have "x \<in> set (cap_domains ss ?dc (res @ [s]) limit)" by simp
      from Cons.IH[OF this] show ?thesis by auto
    qed
  next
    case False
    have step: "cap_domains (s # ss) dc res limit =
        (if limit \<le> int (length res) then res else cap_domains ss dc res limit)"
      using False by (simp add: Let_def)
    show ?thesis
    proof (cases "limit \<le> int (length res)")
      case True
      with Cons.prems step show ?thesis by auto
    next
      case False
      with Cons.prems step have "x \<in> set (cap_domains ss dc res limit)" by simp
      from Cons.IH[OF this] show ?thesis by auto
    qed
  qed
qed

lemma cap_domains_count:
  assumes "\<forall>d. domain_get dc d = length (filter (\<lambda>s. domain s = d) res)"
      and "\<forall>d. length (filter (\<lambda>s. domain s = d) res) \<le> 3"
  shows "length (filter (\<lambda>s. domain s = d) (cap_domains ss dc res limit)) \<le> 3"
  using assms
proof (induction ss arbitrary: dc res)
  case Nil
  then show ?case by simp
next
  case (Cons s ss)
  show ?case
  proof (cases "domain_get dc (domain s) < 3")
    case True
    let ?dc = "dc(domain s \<mapsto> domain_get dc (domain s) + 1)"
    have a: "\<forall>d. domain_get ?dc d = length (filter (\<lambda>x. domain x = d) (res @ [s]))"
      using Cons.prems(1) by (auto simp: domain_get_def)
    have b: "\<forall>d. length (filter (\<lambda>x. domain x = d) (res @ [s])) \<le> 3"
      using Cons.prems True by (auto simp: domain_get_def)
    have ih: "length (filter (\<lambda>x. domain x = d) (cap_domains ss ?dc (res @ [s]) limit)) \<le> 3"
      by (rule Cons.IH[of ?dc "res @ [s]", OF a b])
    have step: "cap_domains (s # ss) dc res limit =
        (if limit \<le> int (length (res @ [s])) then res @ [s]
         else cap_domains ss ?dc (res @ [s]) limit)"
      using True by (simp add: Let_def)
    show ?thesis
    proof (cases "limit \<le> int (length (res @ [s]))")
      case True
      with step have "cap_domains (s # ss) dc res limit = res @ [s]" by simp
      with b show ?thesis by simp
    next
      case False
      with step have "cap_domains (s # ss) dc res limit = cap_domains ss ?dc (res @ [s]) limit"
        by simp
      with ih show ?thesis by simp
    qed
  next
    case False
    have ih: "length (filter (\<lambda>x. domain x = d) (cap_domains ss dc res limit)) \<le> 3"
      by (rule Cons.IH[OF Cons.prems])
    have step: "cap_domains (s # ss) dc res limit =
        (if limit \<le> int (length res) then res else cap_domains ss dc res limit)"
      using False by (simp add: Let_def)
    show ?thesis
    proof (cases "limit \<le> int (length res)")
      case True
      with step Cons.prems(2) show ?thesis by simp
    next
      case False
      with step ih show ?thesis by simp
    qed
  qed
qed

lemma cap_domains_limit:
  "1 \<le> limit \<Longrightarrow> int (length res) < limit \<Longrightarrow> int (length (cap_domains ss dc res limit)) \<le> limit"
proof (induction ss arbitrary: dc res)
  case Nil
  then show ?case by simp
next
  case (Cons s ss)
  show ?case
  proof (cases "domain_get dc (domain s) < 3")
    case True
    let ?dc = "dc(domain s \<mapsto> domain_get dc (domain s) + 1)"
    have step: "cap_domains (s # ss) dc res limit =
        (if limit \<le> int (length (res @ [s])) then res @ [s]
         else cap_domains ss ?dc (res @ [s]) limit)"
      using True by (simp add: Let_def)
    show ?thesis
    proof (cases "limit \<le> int (length (res @ [s]))")
      case True
      with step Cons.prems show ?thesis by simp
    next
      case False
      then have lt: "int (length (res @ [s])) < limit" by simp
      have ih: "int (length (cap_domains ss ?dc (res @ [s]) limit)) \<le> limit"
        by (rule Cons.IH[OF Cons.prems(1) lt])
      from step False
      have "cap_domains (s # ss) dc res limit = cap_domains ss ?dc (res @ [s]) limit" by simp
      with ih show ?thesis by simp
    qed
  next
    case False
    have step: "cap_domains (s # ss) dc res limit =
        (if limit \<le> int (length res) then res else cap_domains ss dc res limit)"
      using False by (simp add: Let_def)
    have ih: "int (length (cap_domains ss dc res limit)) \<le> limit"
      by (rule Cons.IH[OF Cons.prems])
    from Cons.prems(2) step
    have "cap_domains (s # ss) dc res limit = cap_domains ss dc res limit" by simp
    with ih show ?thesis by simp
  qed
qed

lemma filter_stories_urlless:
  "filter_stories ss acc = Inr out \<Longrightarrow> \<forall>s\<in>set acc. url s = [] \<longrightarrow> domain s = []
     \<Longrightarrow> \<forall>s\<in>set out. url s = [] \<longrightarrow> domain s = []"
proof (induction ss arbitrary: acc)
  case Nil
  then show ?case by simp
next
  case (Cons s ss)
  show ?case
  proof (cases "list_ex (\<lambda>w. contains w (lower (title s))) JOB_WORDS \<or> (url s = [] \<and> length (title s) < 20)")
    case True
    then have "filter_stories (s # ss) acc = filter_stories ss acc" by (auto simp: Let_def)
    with Cons show ?thesis by simp
  next
    case False
    then obtain d where d: "story_domain (url s) = Inr d"
      and r: "filter_stories ss (acc @ [s\<lparr>score := points s + comments s * 2, domain := d\<rparr>]) = Inr out"
      using Cons.prems(1) by (auto simp: Let_def split: sum.splits)
    have "url s = [] \<longrightarrow> d = []" using d by (auto simp: story_domain_def)
    then have "\<forall>x\<in>set (acc @ [s\<lparr>score := points s + comments s * 2, domain := d\<rparr>]). url x = [] \<longrightarrow> domain x = []"
      using Cons.prems(2) by auto
    from Cons.IH[OF r this] show ?thesis .
  qed
qed

lemma select_stories_domain_cap:
  assumes "select_stories stories limit = Inr out"
  shows "length (filter (\<lambda>s. domain s = d) out) \<le> 3"
proof -
  obtain filtered where
    o: "out = cap_domains (sort_key (\<lambda>x. - score x) filtered) Map.empty [] limit"
    using assms by (auto simp: select_stories_def split: sum.splits)
  show ?thesis unfolding o
    by (rule cap_domains_count) (simp_all add: domain_get_def)
qed

lemma select_stories_limit:
  assumes "select_stories stories limit = Inr out" and "1 \<le> limit"
  shows "int (length out) \<le> limit"
proof -
  obtain filtered where
    o: "out = cap_domains (sort_key (\<lambda>x. - score x) filtered) Map.empty [] limit"
    using assms by (auto simp: select_stories_def split: sum.splits)
  show ?thesis unfolding o using assms(2) by (intro cap_domains_limit) simp_all
qed

lemma story_domain_no_url: "story_domain [] = Inr []"
  by (simp add: story_domain_def)

lemma filter_stories_domain:
  "filter_stories ss acc = Inr out \<Longrightarrow> \<forall>s\<in>set acc. story_domain (url s) = Inr (domain s)
     \<Longrightarrow> \<forall>s\<in>set out. story_domain (url s) = Inr (domain s)"
proof (induction ss arbitrary: acc)
  case Nil
  then show ?case by simp
next
  case (Cons s ss)
  show ?case
  proof (cases "list_ex (\<lambda>w. contains w (lower (title s))) JOB_WORDS \<or> (url s = [] \<and> length (title s) < 20)")
    case True
    then have "filter_stories (s # ss) acc = filter_stories ss acc" by (auto simp: Let_def)
    with Cons show ?thesis by simp
  next
    case False
    then obtain d where d: "story_domain (url s) = Inr d"
      and r: "filter_stories ss (acc @ [s\<lparr>score := points s + comments s * 2, domain := d\<rparr>]) = Inr out"
      using Cons.prems(1) by (auto simp: Let_def split: sum.splits)
    have "\<forall>x\<in>set (acc @ [s\<lparr>score := points s + comments s * 2, domain := d\<rparr>]).
            story_domain (url x) = Inr (domain x)"
      using Cons.prems(2) d by auto
    from Cons.IH[OF r this] show ?thesis .
  qed
qed

lemma select_stories_domain:
  assumes "select_stories stories limit = Inr out" and "s \<in> set out"
  shows "story_domain (url s) = Inr (domain s)"
proof -
  obtain filtered where f: "filter_stories stories [] = Inr filtered"
    and o: "out = cap_domains (sort_key (\<lambda>x. - score x) filtered) Map.empty [] limit"
    using assms(1) by (auto simp: select_stories_def split: sum.splits)
  have "s \<in> set filtered"
    using cap_domains_subset[of s "sort_key (\<lambda>x. - score x) filtered" Map.empty "[]" limit]
      assms(2) o by auto
  then show ?thesis using filter_stories_domain[OF f] by simp
qed

lemma filter_length_mono:
  "(\<And>x. x \<in> set xs \<Longrightarrow> P x \<Longrightarrow> Q x) \<Longrightarrow> length (filter P xs) \<le> length (filter Q xs)"
  by (induction xs) auto

text \<open>
  Claim C2 (the output holds at most \<open>limit\<close> stories and at most 3 of any domain).
  The cap of 3 per domain holds for every input (\<open>select_stories_domain_cap\<close>), and the
  output holds at most \<open>limit\<close> stories whenever \<open>limit\<close> is at least 1
  (\<open>select_stories_limit\<close>).  The loop tests \<open>len(result) >= limit\<close> only after it has
  looked at a story, so with \<open>limit = 0\<close> the first story is admitted before the test:
  one story is returned where the claim allows none.
\<close>

theorem select_stories_limit_zero:
  "select_stories
     [\<lparr>sid = 1, title = ''A story with a long enough title'', url = ''https://a.com/x'',
       points = 10, comments = 2, score = 0, domain = [], category = [], is_top = False\<rparr>] 0
   = Inr [\<lparr>sid = 1, title = ''A story with a long enough title'', url = ''https://a.com/x'',
       points = 10, comments = 2, score = 14, domain = ''a.com'', category = [], is_top = False\<rparr>]"
  by code_simp

text \<open>
  Claim C7 (the domain of a story with a URL is the URL's host with a leading \<open>www.\<close>
  stripped and nothing else removed; a story without a URL gets the empty domain).
  Every selected story has the domain \<open>story_domain\<close> computes from its URL
  (\<open>select_stories_domain\<close>), which is empty for a story without a URL
  (\<open>story_domain_no_url\<close>): the second half holds.  For the first, the code calls
  \<open>replace("www.", "")\<close> on the netloc, which removes every occurrence: the host
  \<open>api.www.example.com\<close> has no leading \<open>www.\<close> and still loses its inner one.
\<close>

theorem select_stories_inner_www:
  "urlparse_netloc ''https://api.www.example.com/x'' = Inr ''api.www.example.com'' \<and>
   select_stories
     [\<lparr>sid = 1, title = ''A story with a long enough title'',
       url = ''https://api.www.example.com/x'',
       points = 10, comments = 2, score = 0, domain = [], category = [], is_top = False\<rparr>] 10
   = Inr [\<lparr>sid = 1, title = ''A story with a long enough title'',
       url = ''https://api.www.example.com/x'',
       points = 10, comments = 2, score = 14, domain = ''api.example.com'', category = [],
       is_top = False\<rparr>]"
  by code_simp

text \<open>
  Claim C9 (implicit): a story without a URL gets the empty domain, the cap of 3 per
  domain counts the empty domain like any other, and so the output of the selector holds
  at most 3 stories without a URL, whatever the input and the limit.
\<close>

theorem select_stories_urlless_cap:
  assumes "select_stories stories limit = Inr out"
  shows "(\<forall>s\<in>set out. url s = [] \<longrightarrow> domain s = []) \<and> length (filter (\<lambda>s. url s = []) out) \<le> 3"
proof -
  obtain filtered where f: "filter_stories stories [] = Inr filtered"
    and o: "out = cap_domains (sort_key (\<lambda>x. - score x) filtered) Map.empty [] limit"
    using assms by (auto simp: select_stories_def split: sum.splits)
  have "\<forall>s\<in>set filtered. url s = [] \<longrightarrow> domain s = []"
    using filter_stories_urlless[OF f] by simp
  moreover have "set out \<subseteq> set filtered"
    using cap_domains_subset[of _ "sort_key (\<lambda>x. - score x) filtered" Map.empty "[]" limit] o by auto
  ultimately have u: "\<forall>s\<in>set out. url s = [] \<longrightarrow> domain s = []" by blast
  have "length (filter (\<lambda>s. url s = []) out) \<le> length (filter (\<lambda>s. domain s = []) out)"
    using u by (intro filter_length_mono) blast
  also have "\<dots> \<le> 3" using select_stories_domain_cap[OF assms] .
  finally show ?thesis using u by blast
qed

theorem select_stories_urlless_cap_witness:
  "select_stories ask_stories 10 = Inr ask_selected \<and>
   length (filter (\<lambda>s. url s = []) ask_selected) \<le> 3"
proof -
  have e: "select_stories ask_stories 10 = Inr ask_selected"
    by code_simp
  show ?thesis
    by (rule conjI [OF e conjunct2 [OF select_stories_urlless_cap [OF e]]])
qed

section \<open>The publisher: failures and the edit of the root\<close>

lemma post_replies_plain_eq:
  "post_replies_plain send main_id k msgs evs = evs @ map (\<lambda>m. SendMessage m (Some main_id)) msgs"
  by (induction msgs arbitrary: k evs) auto

lemma post_replies_eq:
  "post_replies send main_id k msgs reply_ids evs =
     (reply_ids @ List.map_filter send [k..<k + length msgs],
      evs @ map (\<lambda>m. SendMessage m (Some main_id)) msgs)"
proof (induction msgs arbitrary: k reply_ids evs)
  case Nil
  then show ?case by (simp add: List.map_filter_simps)
next
  case (Cons m msgs)
  have "[k..<k + length (m # msgs)] = k # [Suc k..<Suc k + length msgs]"
    by (simp add: upt_conv_Cons del: upt_Suc)
  then show ?case
    using Cons.IH[of "Suc k"] by (simp add: List.map_filter_simps del: upt_Suc split: option.splits)
qed

lemma map_filter_length_eq:
  "length (List.map_filter f xs) = length xs \<Longrightarrow> x \<in> set xs \<Longrightarrow> f x \<noteq> None"
proof -
  assume l: "length (List.map_filter f xs) = length xs" and x: "x \<in> set xs"
  have "length (List.map_filter f xs) = length (filter (\<lambda>x. f x \<noteq> None) xs)"
    by (simp add: List.map_filter_def)
  with l have "length (filter (\<lambda>x. f x \<noteq> None) xs) = length xs" by simp
  with length_filter_less[of x xs "\<lambda>x. f x \<noteq> None"] x show ?thesis by force
qed

lemma post_thread_edit_eq:
  "post_thread_edit send (m0 # replies) cats cb =
     (case send 0 of
        None \<Rightarrow> (False, [SendMessage m0 None])
      | Some main_id \<Rightarrow>
          (True,
           SendMessage m0 None # map (\<lambda>m. SendMessage m (Some main_id)) replies @
             (case cb of
                None \<Rightarrow> []
              | Some f \<Rightarrow>
                  if cats \<noteq> [] \<and> length (reply_ids_of send (length replies)) = length cats
                     \<and> f m0 cats (reply_ids_of send (length replies)) \<noteq> m0
                  then [EditMessage main_id (f m0 cats (reply_ids_of send (length replies)))]
                  else [])))"
  by (simp add: post_thread_edit_def post_replies_eq reply_ids_of_def Let_def
           del: upt_Suc split: option.splits)

text \<open>
  Claim C5 (publisher failure semantics), for both \<open>post_thread\<close> functions.  For a
  non-empty message list: when posting the root fails, the result is failure and the root
  request is the only one made; when it succeeds, the result is success and one request
  is made for every reply, in order and addressed to the root, whatever the earlier
  replies returned: a failed reply is passed over and the next one is posted.
\<close>

theorem post_thread_failure_semantics:
  assumes "messages \<noteq> []"
  shows "post_thread send messages =
           (case send 0 of
              None \<Rightarrow> (False, [SendMessage (hd messages) None])
            | Some main_id \<Rightarrow>
                (True, SendMessage (hd messages) None
                         # map (\<lambda>m. SendMessage m (Some main_id)) (tl messages)))
       \<and> fst (post_thread_edit send messages cats cb) = (send 0 \<noteq> None)
       \<and> filter is_send (snd (post_thread_edit send messages cats cb)) =
           (case send 0 of
              None \<Rightarrow> [SendMessage (hd messages) None]
            | Some main_id \<Rightarrow>
                SendMessage (hd messages) None
                  # map (\<lambda>m. SendMessage m (Some main_id)) (tl messages))"
proof -
  obtain m0 replies where m: "messages = m0 # replies"
    using assms by (cases messages) auto
  have 1: "post_thread send messages =
           (case send 0 of
              None \<Rightarrow> (False, [SendMessage (hd messages) None])
            | Some main_id \<Rightarrow>
                (True, SendMessage (hd messages) None
                         # map (\<lambda>m. SendMessage m (Some main_id)) (tl messages)))"
    by (simp add: m post_thread_def post_replies_plain_eq split: option.splits)
  have 2: "fst (post_thread_edit send messages cats cb) = (send 0 \<noteq> None)"
    by (simp add: m post_thread_edit_eq split: option.splits)
  have f: "filter is_send (map (\<lambda>m. SendMessage m r) xs) = map (\<lambda>m. SendMessage m r) xs" for r xs
    by (induction xs) (simp_all add: is_send_def)
  have 3: "filter is_send (snd (post_thread_edit send messages cats cb)) =
           (case send 0 of
              None \<Rightarrow> [SendMessage (hd messages) None]
            | Some main_id \<Rightarrow>
                SendMessage (hd messages) None
                  # map (\<lambda>m. SendMessage m (Some main_id)) (tl messages))"
    by (simp add: m post_thread_edit_eq f is_send_def split: option.splits)
  from 1 2 3 show ?thesis by blast
qed

theorem post_thread_failure_semantics_witness:
  "[''root'', ''ai'', ''code''] \<noteq> []
   \<and> post_thread no_send [''root'', ''ai'', ''code''] = (False, [SendMessage ''root'' None])
   \<and> post_thread flaky_send [''root'', ''ai'', ''code''] =
       (True, [SendMessage ''root'' None, SendMessage ''ai'' (Some 100),
               SendMessage ''code'' (Some 100)])
   \<and> fst (post_thread_edit no_send [''root'', ''ai'', ''code''] [''ai'', ''code''] (Some add_links))
       = False
   \<and> fst (post_thread_edit flaky_send [''root'', ''ai'', ''code''] [''ai'', ''code''] (Some add_links))
       = True
   \<and> filter is_send
        (snd (post_thread_edit flaky_send [''root'', ''ai'', ''code''] [''ai'', ''code''] (Some add_links)))
       = [SendMessage ''root'' None, SendMessage ''ai'' (Some 100), SendMessage ''code'' (Some 100)]"
proof -
  have ne: "[''root'', ''ai'', ''code''] \<noteq> []" by simp
  note a = post_thread_failure_semantics [OF ne, of no_send "[''ai'', ''code'']" "Some add_links"]
  note b = post_thread_failure_semantics [OF ne, of flaky_send "[''ai'', ''code'']" "Some add_links"]
  show ?thesis
    using a b by (simp add: no_send_def flaky_send_def)
qed

text \<open>
  Claim C10 (implicit): the root is edited only when every reply post succeeded.  The
  code compares the number of collected ids with the number of reply categories, a list
  the caller passes beside the messages.  With two replies and one category, the first
  reply failing and the second succeeding, the counts agree and the root is edited.
\<close>

theorem post_thread_edit_partial_counterexample:
  "flaky_send 1 = None \<and>
   post_thread_edit flaky_send [''root'', ''ai'', ''code''] [''ai''] (Some add_links) =
     (True, [SendMessage ''root'' None, SendMessage ''ai'' (Some 100),
             SendMessage ''code'' (Some 100), EditMessage 100 ''root (links)''])"
  by code_simp

text \<open>
  Claim C10 as amended: \<open>edit_message\<close> is called only when reply categories were given
  and the number of collected reply ids equals their number; when there is one category
  per reply message, this means that every reply post succeeded.
\<close>

theorem post_thread_edit_only_when_counts_agree:
  assumes "EditMessage i text \<in> set (snd (post_thread_edit send messages cats cb))"
  shows "cats \<noteq> [] \<and> length (reply_ids_of send (length messages - 1)) = length cats
         \<and> (length cats = length messages - 1 \<longrightarrow>
              (\<forall>k. 1 \<le> k \<and> k < length messages \<longrightarrow> send k \<noteq> None))"
proof -
  obtain m0 replies where m: "messages = m0 # replies"
    using assms by (cases messages) (auto simp: post_thread_edit_def)
  have c: "cats \<noteq> [] \<and> length (reply_ids_of send (length replies)) = length cats"
    using assms unfolding m post_thread_edit_eq
    by (auto split: option.splits if_splits)
  have "send k \<noteq> None" if "length cats = length replies" "1 \<le> k" "k < length messages" for k
  proof -
    have "length (List.map_filter send [1..<Suc (length replies)]) = length [1..<Suc (length replies)]"
      using c that(1) by (simp add: reply_ids_of_def del: upt_Suc)
    moreover have "k \<in> set [1..<Suc (length replies)]" using that m by auto
    ultimately show ?thesis by (rule map_filter_length_eq)
  qed
  with c show ?thesis by (simp add: m)
qed

theorem post_thread_edit_only_when_counts_agree_witness:
  "EditMessage 100 ''root (links)''
     \<in> set (snd (post_thread_edit good_send [''root'', ''ai'', ''code''] [''ai'', ''code''] (Some add_links)))
   \<and> length (reply_ids_of good_send (length [''root'', ''ai'', ''code''] - 1)) = length [''ai'', ''code'']
   \<and> good_send 1 \<noteq> None \<and> good_send 2 \<noteq> None"
proof -
  have e: "EditMessage 100 ''root (links)''
     \<in> set (snd (post_thread_edit good_send [''root'', ''ai'', ''code''] [''ai'', ''code''] (Some add_links)))"
    by code_simp
  note t = post_thread_edit_only_when_counts_agree [OF e]
  have l: "length [''ai'', ''code''] = length [''root'', ''ai'', ''code''] - 1" by simp
  from t l have all: "\<forall>k. 1 \<le> k \<and> k < length [''root'', ''ai'', ''code''] \<longrightarrow> good_send k \<noteq> None"
    by blast
  have "good_send 1 \<noteq> None" using all by (elim allE [of _ 1]) simp
  moreover have "good_send 2 \<noteq> None" using all by (elim allE [of _ 2]) simp
  ultimately show ?thesis using e t by blast
qed

section \<open>The assembler: sections and escaping\<close>

lemma replace_str_char:
  "replace_str [c] new s = concat (map (\<lambda>x. if x = c then new else [x]) s)"
  by (induction s) (simp_all add: startswith_def)

lemma escape_html_chars:
  "escape_html s =
     concat (map (\<lambda>c. if c = CHR ''&'' then ''&amp;'' else if c = CHR ''<'' then ''&lt;''
                       else if c = CHR ''>'' then ''&gt;'' else [c]) s)"
  unfolding escape_html_def replace_str_char
  by (induction s) simp_all

lemma escape_html_no_angle:
  "CHR ''<'' \<notin> set (escape_html s) \<and> CHR ''>'' \<notin> set (escape_html s)"
  by (induction s) (simp_all add: escape_html_chars)







lemma format_story_lines_title_line:
  assumes "category s \<noteq> ''show_hn''" and "category s \<noteq> ''ask_hn''" and "url s \<noteq> []"
  shows "hd (format_story_lines s titles summaries lang) =
           ''<b><a href='' @ [dquote] @ url s @ [dquote] @ ''>''
             @ escape_html (case titles (sid s) of None \<Rightarrow> title s | Some t \<Rightarrow> t) @ ''</a></b>''"
  using assms by (simp add: format_story_lines_def Let_def)

text \<open>
  Claim C8 (title, summary and URL are escaped for \<open>&\<close>, \<open><\<close> and \<open>>\<close> before they
  are embedded).  The title and the summary go through \<open>escape_html\<close>, whose result has
  no \<open><\<close> and no \<open>>\<close> (\<open>escape_html_no_angle\<close>) and has \<open>&amp;\<close> for each \<open>&\<close>
  (\<open>escape_html_chars\<close>).  The URL is written into the \<open>href\<close> attribute as it is
  (\<open>format_story_lines_title_line\<close>): the \<open>&\<close> of a query string reaches the message
  unescaped.
\<close>

theorem format_story_lines_raw_url:
  "format_story_lines
     \<lparr>sid = 7, title = ''Q&A on <proofs>'', url = ''https://example.com/search?q=proofs&lang=en'',
      points = 10, comments = 3, score = 16, domain = ''example.com'', category = ''code'',
      is_top = False\<rparr>
     Map.empty [7 \<mapsto> ''Why x > y''] ''en''
   = [''<b><a href='' @ [dquote] @ ''https://example.com/search?q=proofs&lang=en'' @ [dquote]
        @ ''>Q&amp;A on &lt;proofs&gt;</a></b>'',
      ''Why x &gt; y'',
      ''<i>10'' @ nbsp @ ''points '' @ middot @ '' <a href='' @ [dquote]
        @ ''https://news.ycombinator.com/item?id=7'' @ [dquote] @ ''>3'' @ nbsp
        @ ''comments</a></i>'']
   \<and> escape_html ''https://example.com/search?q=proofs&lang=en''
       = ''https://example.com/search?q=proofs&amp;lang=en''"
  by code_simp

section \<open>The enricher: retries, response lines and the cache\<close>




lemma split_first_eq:
  "split_first d s =
     (if d \<in> set s then [takeWhile (\<lambda>c. c \<noteq> d) s, drop 1 (dropWhile (\<lambda>c. c \<noteq> d) s)] else [s])"
proof (cases "dropWhile (\<lambda>c. c \<noteq> d) s")
  case Nil
  then have n: "d \<notin> set s" by (metis (mono_tags, lifting) dropWhile_eq_Nil_conv)
  have "split_first d s = [s]" unfolding split_first_def Nil by simp
  with n show ?thesis by simp
next
  case (Cons c cs)
  then have n: "d \<in> set s"
    by (metis (mono_tags, lifting) dropWhile_eq_Nil_conv list.distinct(1))
  have "split_first d s = [takeWhile (\<lambda>c. c \<noteq> d) s, drop 1 (dropWhile (\<lambda>c. c \<noteq> d) s)]"
    unfolding split_first_def Cons by simp
  with n show ?thesis by simp
qed

lemma parse_result_line_eq:
  "parse_result_line ext line =
     (if strip line = [] \<or> \<not> isdigit ext (hd (strip line)) \<or> ord CHR ''.'' \<notin> set (strip line)
      then None
      else (case line_index ext line of
              None \<Rightarrow> None
            | Some n \<Rightarrow> Some (n - 1, result_of_rest ext (line_rest line))))"
  by (simp add: parse_result_line_def split_first_eq line_index_def line_rest_def
        result_of_rest_def Let_def split: option.splits)

lemma apply_line_skip:
  "parse_result_line ext line = None \<Longrightarrow>
     apply_line ext stories contents lang line st = (Inr (fst st), snd st)"
  by (simp add: apply_line_def)

lemma apply_line_out_of_range:
  "parse_result_line ext line = Some (num, r) \<Longrightarrow> \<not> (0 \<le> num \<and> num < int (length stories)) \<Longrightarrow>
     apply_line ext stories contents lang line st = (Inr (fst st), snd st)"
  by (simp add: apply_line_def)

lemma apply_line_entry:
  "parse_result_line ext line = Some (num, r) \<Longrightarrow> 0 \<le> num \<Longrightarrow> num < int (length stories) \<Longrightarrow>
   encodable (serialize_result r) \<Longrightarrow>
     apply_line ext stories contents lang line st =
       (Inr (AList.update (sid (stories ! nat num)) r (fst st)),
        (snd st)(story_key ext contents lang (stories ! nat num) \<mapsto> serialize_result r))"
  by (simp add: apply_line_def write_text_def Let_def)

lemma apply_line_raises:
  "parse_result_line ext line = Some (num, r) \<Longrightarrow> 0 \<le> num \<Longrightarrow> num < int (length stories) \<Longrightarrow>
   \<not> encodable (serialize_result r) \<Longrightarrow>
     apply_line ext stories contents lang line st =
       (Inl UnicodeEncodeError, (snd st)(story_key ext contents lang (stories ! nat num) \<mapsto> []))"
  by (simp add: apply_line_def write_text_def Let_def)







text \<open>
  Digits and white space outside ASCII: a line whose index is the full-width digit one
  and that ends with a no-break space is parsed like the ASCII line.
\<close>

lemma fullwidth_line_entry:
  "fst (apply_line example_externals one_story Map.empty ''en'' fullwidth_line ([], Map.empty))
     = Inr [(7, \<lparr>res_category = ascii ''ai'', res_is_top = True, translation = ascii ''Tea'',
                  summary = ascii ''Time''\<rparr>)]"
  by code_simp

section \<open>The enricher: a second call on the cache of the first\<close>

subsection \<open>Stripping\<close>

lemma rstrip_with_Cons:
  "rstrip_with p (x # xs) = (if p x \<and> rstrip_with p xs = [] then [] else x # rstrip_with p xs)"
  by (auto simp: rstrip_with_def dropWhile_append dropWhile_eq_Nil_conv)

lemma rstrip_with_append:
  assumes "a \<noteq> []" and "\<not> p (last a)"
  shows "rstrip_with p (a @ b) = a @ rstrip_with p b"
proof -
  have "dropWhile p (rev a) = rev a"
    using assms by (cases "rev a") (auto simp: last_rev hd_rev dest: arg_cong[where f=hd])
  moreover have "\<exists>x\<in>set (rev a). \<not> p x" using assms by (auto intro: bexI[of _ "last a"])
  ultimately show ?thesis
    by (auto simp: rstrip_with_def dropWhile_append)
qed

lemma rstrip_with_idem: "rstrip_with p (rstrip_with p s) = rstrip_with p s"
  by (simp add: rstrip_with_def)

lemma strip_with_eq: "strip_with p s = rstrip_with p (dropWhile p s)"
  by (simp add: strip_with_def rstrip_with_def)

lemma lstrip_rstrip: "dropWhile p (rstrip_with p s) = rstrip_with p (dropWhile p s)"
proof (induction s)
  case Nil
  then show ?case by (simp add: rstrip_with_def)
next
  case (Cons x xs)
  show ?case
  proof (cases "p x")
    case True
    show ?thesis
    proof (cases "rstrip_with p xs = []")
      case True
      with Cons \<open>p x\<close> show ?thesis by (simp add: rstrip_with_Cons)
    next
      case False
      with Cons True show ?thesis by (simp add: rstrip_with_Cons)
    qed
  next
    case False
    then show ?thesis by (simp add: rstrip_with_Cons)
  qed
qed

lemma strip_with_rstrip: "strip_with p (rstrip_with p s) = strip_with p s"
  by (simp add: strip_with_eq lstrip_rstrip rstrip_with_idem)

lemma strip_with_idem: "strip_with p (strip_with p s) = strip_with p s"
  by (simp add: strip_with_eq lstrip_rstrip rstrip_with_idem)

lemma strip_with_append:
  assumes "a \<noteq> []" and "\<not> p (hd a)" and "\<not> p (last a)"
  shows "strip_with p (a @ b) = a @ rstrip_with p b"
proof -
  have "dropWhile p (a @ b) = a @ b" using assms by (cases a) auto
  then show ?thesis using assms by (simp add: strip_with_eq rstrip_with_append)
qed

lemma set_rstrip_with: "x \<in> set (rstrip_with p s) \<Longrightarrow> x \<in> set s"
  by (auto simp: rstrip_with_def dest: set_dropWhileD)

lemma set_strip_with: "x \<in> set (strip_with p s) \<Longrightarrow> x \<in> set s"
  unfolding strip_with_eq by (blast dest: set_rstrip_with set_dropWhileD)

lemma set_strip: "x \<in> set (strip s) \<Longrightarrow> x \<in> set s"
  unfolding strip_def by (rule set_strip_with)

lemma strip_Nil: "strip [] = []"
  by (simp add: strip_def strip_with_def)

lemma strip_idem: "strip (strip s) = strip s"
  by (simp add: strip_def strip_with_idem)

subsection \<open>Splitting\<close>

lemma split_char_nonempty: "split_char d s \<noteq> []"
  by (induction s) (auto split: list.splits)

lemma split_char_append:
  "d \<notin> set a \<Longrightarrow> split_char d (a @ d # b) = a # split_char d b"
  by (induction a) (auto split: list.splits)

lemma split_char_single: "d \<notin> set a \<Longrightarrow> split_char d a = [a]"
  by (induction a) (auto split: list.splits)

lemma split_char_parts: "p \<in> set (split_char d s) \<Longrightarrow> d \<notin> set p"
proof (induction s arbitrary: p)
  case Nil
  then show ?case by simp
next
  case (Cons c cs)
  obtain q qs where q: "split_char d cs = q # qs"
    using split_char_nonempty[of d cs] by (cases "split_char d cs") auto
  show ?case
  proof (cases "c = d")
    case True
    with Cons show ?thesis by auto
  next
    case False
    with Cons.prems q have "p = c # q \<or> p \<in> set qs" by simp
    moreover have "d \<notin> set q" using Cons.IH[of q] q by simp
    moreover have "p \<in> set qs \<Longrightarrow> d \<notin> set p" using Cons.IH[of p] q by simp
    ultimately show ?thesis using False by auto
  qed
qed

subsection \<open>Fields\<close>

lemma takeWhile_until: "d \<notin> set f \<Longrightarrow> takeWhile (\<lambda>c. c \<noteq> d) (f @ d # v) = f"
  by (induction f) auto

lemma dropWhile_until: "d \<notin> set f \<Longrightarrow> dropWhile (\<lambda>c. c \<noteq> d) (f @ d # v) = d # v"
  by (induction f) auto

lemma extract_parts_hit:
  assumes "strip part = f @ ord CHR ''='' # v" and "ord CHR ''='' \<notin> set f"
  shows "extract_parts (part # parts) f = strip v"
proof -
  have s: "startswith (strip part) (f @ ascii ''='')"
    using assms(1) by (simp add: startswith_def ascii_def)
  have "takeWhile (\<lambda>c. c \<noteq> ord CHR ''='') (f @ ord CHR ''='' # v) = f"
    using assms(2) by (rule takeWhile_until)
  moreover have "dropWhile (\<lambda>c. c \<noteq> ord CHR ''='') (f @ ord CHR ''='' # v) = ord CHR ''='' # v"
    using assms(2) by (rule dropWhile_until)
  ultimately have "split_first (ord CHR ''='') (strip part) = [f, v]"
    using assms(1) by (simp add: split_first_eq)
  with s show ?thesis by (simp add: Let_def)
qed

lemma extract_parts_miss:
  "\<not> startswith (strip part) (f @ ascii ''='') \<Longrightarrow>
     extract_parts (part # parts) f = extract_parts parts f"
  by (simp add: Let_def)

lemma extract_parts_stripped: "strip (extract_parts ps f) = extract_parts ps f"
proof (induction ps)
  case Nil
  then show ?case by (simp add: strip_Nil)
next
  case (Cons p ps)
  then show ?case
    by (auto simp: Let_def strip_idem strip_Nil split: list.splits)
qed

lemma extract_parts_chars:
  "x \<in> set (extract_parts ps f) \<Longrightarrow> \<exists>p\<in>set ps. x \<in> set p"
proof (induction ps)
  case Nil
  then show ?case by simp
next
  case (Cons p ps)
  show ?case
  proof (cases "startswith (strip p) (f @ ascii ''='')")
    case True
    with Cons.prems
    have "x \<in> set (case split_first (ord CHR ''='') (strip p) of a # v # r \<Rightarrow> strip v | _ \<Rightarrow> [])"
      by (simp add: Let_def)
    then have "x \<in> set (strip p)"
      by (auto simp: split_first_eq split: if_splits dest!: set_strip dest: in_set_dropD set_dropWhileD)
    then have "x \<in> set p" by (rule set_strip)
    then show ?thesis by simp
  next
    case False
    with Cons show ?thesis by (auto simp: Let_def)
  qed
qed

lemma extract_field_stripped: "strip (extract_field val f) = extract_field val f"
  by (simp add: extract_field_def extract_parts_stripped)

lemma extract_field_no_comma: "ord CHR '','' \<notin> set (extract_field val f)"
proof
  assume "ord CHR '','' \<in> set (extract_field val f)"
  then have "ord CHR '','' \<in> set (extract_parts (split_char (ord CHR '','') val) f)"
    by (simp only: extract_field_def)
  then obtain p where p: "p \<in> set (split_char (ord CHR '','') val)" "ord CHR '','' \<in> set p"
    by (rule extract_parts_chars [THEN bexE])
  from p(1) have "ord CHR '','' \<notin> set p" by (rule split_char_parts)
  with p(2) show False by simp
qed

lemma strip_field:
  assumes "name \<noteq> []" and "\<not> isspace (hd name)"
  shows "strip (name @ ord CHR ''='' # v) = name @ ord CHR ''='' # rstrip_with isspace v"
proof -
  have "strip ((name @ [ord CHR ''='']) @ v) = (name @ [ord CHR ''='']) @ rstrip_with isspace v"
    unfolding strip_def using assms
    by (intro strip_with_append) (simp_all add: isspace_def)
  then show ?thesis by simp
qed

lemma extract_parts_field:
  assumes "name \<noteq> []" and "\<not> isspace (hd name)" and "ord CHR ''='' \<notin> set name"
  shows "extract_parts ((name @ ord CHR ''='' # v) # parts) name = strip v"
proof -
  have "strip (name @ ord CHR ''='' # v) = name @ ord CHR ''='' # rstrip_with isspace v"
    using assms(1,2) by (rule strip_field)
  then have "extract_parts ((name @ ord CHR ''='' # v) # parts) name
               = strip (rstrip_with isspace v)"
    using assms(3) by (rule extract_parts_hit)
  then show ?thesis by (simp add: strip_def strip_with_rstrip)
qed

lemma extract_parts_other:
  assumes "name \<noteq> []" and "\<not> isspace (hd name)" and "hd name \<noteq> hd f" and "f \<noteq> []"
  shows "extract_parts ((name @ ord CHR ''='' # v) # parts) f = extract_parts parts f"
proof -
  have st: "strip (name @ ord CHR ''='' # v) = name @ ord CHR ''='' # rstrip_with isspace v"
    using assms(1,2) by (rule strip_field)
  have "\<not> startswith (name @ ord CHR ''='' # rstrip_with isspace v) (f @ ascii ''='')"
    using assms by (cases name; cases f) (auto simp: startswith_def)
  then have "\<not> startswith (strip (name @ ord CHR ''='' # v)) (f @ ascii ''='')"
    unfolding st .
  then show ?thesis by (rule extract_parts_miss)
qed

subsection \<open>A serialized result, read back\<close>

lemma serialized_parts:
  assumes "ord CHR '','' \<notin> set (res_category r)" and "ord CHR '','' \<notin> set (translation r)"
      and "ord CHR '','' \<notin> set (summary r)"
  shows "split_char (ord CHR '','') (strip (serialize_result r)) =
           [ascii ''category'' @ ord CHR ''='' # res_category r,
            ascii ''rank'' @ ord CHR ''='' # (if res_is_top r then ascii ''top'' else ascii ''regular''),
            ascii ''title'' @ ord CHR ''='' # translation r,
            ascii ''summary'' @ ord CHR ''='' # rstrip_with isspace (summary r)]"
proof -
  let ?K = "if res_is_top r then ascii ''top'' else ascii ''regular''"
  let ?A = "ascii ''category='' @ res_category r @ ascii '',rank='' @ ?K @ ascii '',title=''
              @ translation r @ ascii '',summary=''"
  let ?S = "rstrip_with isspace (summary r)"
  have "serialize_result r = ?A @ summary r"
    by (simp add: serialize_result_def)
  moreover have "strip (?A @ summary r) = ?A @ ?S"
    unfolding strip_def
    by (intro strip_with_append) (simp_all add: ascii_def isspace_def)
  ultimately have s: "strip (serialize_result r) = ?A @ ?S" by simp
  let ?p1 = "ascii ''category'' @ ord CHR ''='' # res_category r"
  let ?p2 = "ascii ''rank'' @ ord CHR ''='' # ?K"
  let ?p3 = "ascii ''title'' @ ord CHR ''='' # translation r"
  let ?p4 = "ascii ''summary'' @ ord CHR ''='' # ?S"
  have n1: "ord CHR '','' \<notin> set ?p1" using assms(1) by (simp add: ascii_def)
  have n2: "ord CHR '','' \<notin> set ?p2" by (simp add: ascii_def)
  have n3: "ord CHR '','' \<notin> set ?p3" using assms(2) by (simp add: ascii_def)
  have "ord CHR '','' \<notin> set ?S" using assms(3) by (auto dest: set_rstrip_with)
  then have n4: "ord CHR '','' \<notin> set ?p4" by (simp add: ascii_def)
  have e: "?A @ ?S = ?p1 @ ord CHR '','' # (?p2 @ ord CHR '','' # (?p3 @ ord CHR '','' # ?p4))"
    by (simp add: ascii_def)
  have "split_char (ord CHR '','') (?p1 @ ord CHR '','' # (?p2 @ ord CHR '','' # (?p3 @ ord CHR '','' # ?p4)))
          = ?p1 # split_char (ord CHR '','') (?p2 @ ord CHR '','' # (?p3 @ ord CHR '','' # ?p4))"
    using n1 by (rule split_char_append)
  also have "split_char (ord CHR '','') (?p2 @ ord CHR '','' # (?p3 @ ord CHR '','' # ?p4))
          = ?p2 # split_char (ord CHR '','') (?p3 @ ord CHR '','' # ?p4)"
    using n2 by (rule split_char_append)
  also have "split_char (ord CHR '','') (?p3 @ ord CHR '','' # ?p4)
          = ?p3 # split_char (ord CHR '','') ?p4"
    using n3 by (rule split_char_append)
  also have "split_char (ord CHR '','') ?p4 = [?p4]"
    using n4 by (rule split_char_single)
  finally have "split_char (ord CHR '','') (?A @ ?S) = [?p1, ?p2, ?p3, ?p4]"
    unfolding e .
  then show ?thesis unfolding s .
qed

lemma strip_rank:
  "strip (if b then ascii ''top'' else ascii ''regular'')
     = (if b then ascii ''top'' else ascii ''regular'')"
  by (simp add: strip_def strip_with_def isspace_def ascii_def)

lemma rank_is_top: "((if b then ascii ''top'' else ascii ''regular'') = ascii ''top'') = b"
  by (simp add: ascii_def)

lemma field_names:
  "ascii ''category'' \<noteq> []" "ascii ''rank'' \<noteq> []" "ascii ''title'' \<noteq> []" "ascii ''summary'' \<noteq> []"
  "\<not> isspace (hd (ascii ''category''))" "\<not> isspace (hd (ascii ''rank''))"
  "\<not> isspace (hd (ascii ''title''))" "\<not> isspace (hd (ascii ''summary''))"
  "ord CHR ''='' \<notin> set (ascii ''category'')" "ord CHR ''='' \<notin> set (ascii ''rank'')"
  "ord CHR ''='' \<notin> set (ascii ''title'')" "ord CHR ''='' \<notin> set (ascii ''summary'')"
  "hd (ascii ''category'') \<noteq> hd (ascii ''rank'')" "hd (ascii ''category'') \<noteq> hd (ascii ''title'')"
  "hd (ascii ''category'') \<noteq> hd (ascii ''summary'')" "hd (ascii ''rank'') \<noteq> hd (ascii ''title'')"
  "hd (ascii ''rank'') \<noteq> hd (ascii ''summary'')" "hd (ascii ''title'') \<noteq> hd (ascii ''summary'')"
  by (simp_all add: ascii_def isspace_def)

lemma parse_cache_line_serialize:
  assumes "ord CHR '','' \<notin> set (res_category r)" and "ord CHR '','' \<notin> set (translation r)"
      and "ord CHR '','' \<notin> set (summary r)" and "strip (res_category r) = res_category r"
  shows "parse_cache_line ext (strip (serialize_result r)) =
           (if res_category r \<in> VALID_CATEGORIES ext
            then Some (r\<lparr>translation := strip (translation r), summary := strip (summary r)\<rparr>)
            else None)"
proof -
  let ?K = "if res_is_top r then ascii ''top'' else ascii ''regular''"
  let ?S = "rstrip_with isspace (summary r)"
  let ?p1 = "ascii ''category'' @ ord CHR ''='' # res_category r"
  let ?p2 = "ascii ''rank'' @ ord CHR ''='' # ?K"
  let ?p3 = "ascii ''title'' @ ord CHR ''='' # translation r"
  let ?p4 = "ascii ''summary'' @ ord CHR ''='' # ?S"
  let ?val = "strip (serialize_result r)"
  have parts: "split_char (ord CHR '','') ?val = [?p1, ?p2, ?p3, ?p4]"
    using assms(1-3) by (rule serialized_parts)
  have c: "extract_field ?val (ascii ''category'') = res_category r"
  proof -
    have "extract_parts [?p1, ?p2, ?p3, ?p4] (ascii ''category'') = strip (res_category r)"
      by (rule extract_parts_field) (rule field_names)+
    then show ?thesis by (simp only: extract_field_def parts assms(4))
  qed
  have k: "extract_field ?val (ascii ''rank'') = ?K"
  proof -
    have "extract_parts [?p1, ?p2, ?p3, ?p4] (ascii ''rank'')
            = extract_parts [?p2, ?p3, ?p4] (ascii ''rank'')"
      by (rule extract_parts_other) (rule field_names)+
    also have "\<dots> = strip ?K"
      by (rule extract_parts_field) (rule field_names)+
    finally show ?thesis by (simp only: extract_field_def parts strip_rank)
  qed
  have t: "extract_field ?val (ascii ''title'') = strip (translation r)"
  proof -
    have "extract_parts [?p1, ?p2, ?p3, ?p4] (ascii ''title'')
            = extract_parts [?p2, ?p3, ?p4] (ascii ''title'')"
      by (rule extract_parts_other) (rule field_names)+
    also have "\<dots> = extract_parts [?p3, ?p4] (ascii ''title'')"
      by (rule extract_parts_other) (rule field_names)+
    also have "\<dots> = strip (translation r)"
      by (rule extract_parts_field) (rule field_names)+
    finally show ?thesis by (simp only: extract_field_def parts)
  qed
  have s: "extract_field ?val (ascii ''summary'') = strip (summary r)"
  proof -
    have "extract_parts [?p1, ?p2, ?p3, ?p4] (ascii ''summary'')
            = extract_parts [?p2, ?p3, ?p4] (ascii ''summary'')"
      by (rule extract_parts_other) (rule field_names)+
    also have "\<dots> = extract_parts [?p3, ?p4] (ascii ''summary'')"
      by (rule extract_parts_other) (rule field_names)+
    also have "\<dots> = extract_parts [?p4] (ascii ''summary'')"
      by (rule extract_parts_other) (rule field_names)+
    also have "\<dots> = strip ?S"
      by (rule extract_parts_field) (rule field_names)+
    also have "\<dots> = strip (summary r)"
      by (simp add: strip_def strip_with_rstrip)
    finally show ?thesis by (simp only: extract_field_def parts)
  qed
  show ?thesis
    unfolding parse_cache_line_def Let_def c k t s rank_is_top
    by simp
qed

lemma universal_newlines_id: "13 \<notin> set s \<Longrightarrow> universal_newlines s = s"
  by (induction s rule: universal_newlines.induct) auto

subsection \<open>Results of the response parser\<close>

lemma strip_other: "strip (ascii ''other'') = ascii ''other''"
  by (simp add: strip_def strip_with_def isspace_def ascii_def)

lemma strip_chars_no_comma:
  "ord CHR '','' \<notin> set s \<Longrightarrow> ord CHR '','' \<notin> set (strip_chars cs s)"
  unfolding strip_chars_def by (blast dest: set_strip_with)

lemma well_formed_result_of_rest:
  assumes "ascii ''other'' \<in> VALID_CATEGORIES ext"
      and "\<forall>c\<in>VALID_CATEGORIES ext. 13 \<notin> set c"
  shows "well_formed ext (result_of_rest ext rest)"
proof -
  let ?c = "res_category (result_of_rest ext rest)"
  have v: "?c \<in> VALID_CATEGORIES ext"
    using assms(1) by (simp add: result_of_rest_def)
  then have "13 \<notin> set ?c" using assms(2) by blast
  moreover have "strip ?c = ?c"
    by (simp add: result_of_rest_def strip_other extract_field_stripped)
  moreover have "ord CHR '','' \<notin> set ?c"
    using extract_field_no_comma by (simp add: result_of_rest_def) (simp add: ascii_def)
  moreover have "ord CHR '','' \<notin> set (strip_chars cs (extract_field rest g))" for cs g
    using extract_field_no_comma by (rule strip_chars_no_comma)
  then have "ord CHR '','' \<notin> set (translation (result_of_rest ext rest))"
      "ord CHR '','' \<notin> set (summary (result_of_rest ext rest))"
    by (simp_all add: result_of_rest_def)
  ultimately show ?thesis using v unfolding well_formed_def by blast
qed

lemma well_formed_parse_result_line:
  assumes "ascii ''other'' \<in> VALID_CATEGORIES ext"
      and "\<forall>c\<in>VALID_CATEGORIES ext. 13 \<notin> set c"
      and "parse_result_line ext line = Some (num, r)"
  shows "well_formed ext r"
proof -
  have "r = result_of_rest ext (line_rest line)"
    using assms(3) by (auto simp: parse_result_line_eq split: if_splits option.splits)
  then show ?thesis using assms(1,2) by (simp add: well_formed_result_of_rest)
qed

lemma serialize_result_no_cr:
  assumes "13 \<notin> set (res_category r)" and "13 \<notin> set (translation r)" and "13 \<notin> set (summary r)"
  shows "13 \<notin> set (serialize_result r)"
  using assms by (simp add: serialize_result_def ascii_def)

lemma cached_result_serialized:
  assumes c: "cache (story_key ext contents lang s) = Some (serialize_result r)"
      and w: "well_formed ext r"
      and p: "plain_text (translation r)" "plain_text (summary r)"
  shows "cached_result ext cache contents lang s = Some r"
proof -
  have "13 \<notin> set (serialize_result r)"
    using w p by (intro serialize_result_no_cr) (simp_all add: well_formed_def plain_text_def)
  then have "read_text cache (story_key ext contents lang s) = Some (serialize_result r)"
    using c by (simp add: read_text_def universal_newlines_id)
  then have "cached_result ext cache contents lang s
               = parse_cache_line ext (strip (serialize_result r))"
    by (simp add: cached_result_def)
  also have "\<dots> = Some (r\<lparr>translation := strip (translation r), summary := strip (summary r)\<rparr>)"
    using w by (simp add: well_formed_def parse_cache_line_serialize)
  also have "r\<lparr>translation := strip (translation r), summary := strip (summary r)\<rparr> = r"
    using p by (simp add: plain_text_def)
  finally show ?thesis .
qed

subsection \<open>Reading the cache\<close>

lemma update_new: "k \<notin> fst ` set al \<Longrightarrow> AList.update k v al = al @ [(k, v)]"
  by (induction al) auto

lemma fold_read_story:
  assumes "distinct (map sid ss)" and "sid ` set ss \<inter> fst ` set acc = {}"
  shows "fold (read_story ext cache contents lang) ss acc =
           acc @ List.map_filter
                   (\<lambda>s. map_option (Pair (sid s)) (cached_result ext cache contents lang s)) ss"
  using assms
proof (induction ss arbitrary: acc)
  case Nil
  then show ?case by (simp add: List.map_filter_simps)
next
  case (Cons s ss)
  show ?case
  proof (cases "cached_result ext cache contents lang s")
    case None
    then have "read_story ext cache contents lang s acc = acc" by (simp add: read_story_def)
    moreover have "fold (read_story ext cache contents lang) ss acc =
           acc @ List.map_filter
                   (\<lambda>s. map_option (Pair (sid s)) (cached_result ext cache contents lang s)) ss"
      using Cons.prems by (intro Cons.IH) auto
    ultimately show ?thesis using None by (simp add: List.map_filter_simps)
  next
    case (Some r)
    have n: "sid s \<notin> fst ` set acc" using Cons.prems(2) by auto
    then have r: "read_story ext cache contents lang s acc = acc @ [(sid s, r)]"
      using Some by (simp add: read_story_def update_new)
    have "fold (read_story ext cache contents lang) ss (acc @ [(sid s, r)]) =
           (acc @ [(sid s, r)]) @ List.map_filter
                   (\<lambda>s. map_option (Pair (sid s)) (cached_result ext cache contents lang s)) ss"
      using Cons.prems by (intro Cons.IH) auto
    then show ?thesis using Some r by (simp add: List.map_filter_simps)
  qed
qed

lemma read_cache_eq:
  "distinct (map sid stories) \<Longrightarrow>
   read_cache ext cache contents lang stories =
     List.map_filter (\<lambda>s. map_option (Pair (sid s)) (cached_result ext cache contents lang s))
       stories"
  unfolding read_cache_def by (subst fold_read_story) simp_all

lemma map_filter_all:
  "(\<And>x. x \<in> set xs \<Longrightarrow> g x = Some (h x)) \<Longrightarrow> List.map_filter g xs = map h xs"
  by (induction xs) (simp_all add: List.map_filter_simps)

lemma read_cache_all:
  assumes "distinct (map sid stories)"
      and "\<And>s. s \<in> set stories \<Longrightarrow> cached_result ext cache contents lang s = Some (f s)"
  shows "read_cache ext cache contents lang stories = map (\<lambda>s. (sid s, f s)) stories"
  unfolding read_cache_eq[OF assms(1)]
  by (rule map_filter_all) (simp add: assms(2))

lemma map_of_map_filter_story:
  "map_of (List.map_filter (\<lambda>s. map_option (Pair (sid s)) (g s)) ss) k = Some r
     \<Longrightarrow> \<exists>s\<in>set ss. sid s = k \<and> g s = Some r"
proof (induction ss)
  case Nil
  then show ?case by (simp add: List.map_filter_simps)
next
  case (Cons s ss)
  then show ?case
    by (cases "g s") (auto simp: List.map_filter_simps split: if_splits)
qed

lemma sid_inj:
  "distinct (map sid ss) \<Longrightarrow> s \<in> set ss \<Longrightarrow> s' \<in> set ss \<Longrightarrow> sid s = sid s' \<Longrightarrow> s = s'"
  by (meson distinct_map inj_onD)

lemma read_cache_entry:
  assumes d: "distinct (map sid stories)" and s: "s \<in> set stories"
      and m: "map_of (read_cache ext cache contents lang stories) (sid s) = Some r"
  shows "cached_result ext cache contents lang s = Some r"
proof -
  have "map_of (List.map_filter
                  (\<lambda>s. map_option (Pair (sid s)) (cached_result ext cache contents lang s))
                  stories) (sid s) = Some r"
    using m d by (simp add: read_cache_eq)
  then obtain s' where s': "s' \<in> set stories" "sid s' = sid s"
    "cached_result ext cache contents lang s' = Some r"
    by (blast dest: map_of_map_filter_story)
  then have "s' = s" using d s by (rule_tac sid_inj)
  then show ?thesis using s' by simp
qed

lemma read_cache_complete:
  assumes d: "distinct (map sid stories)"
      and c: "\<forall>s\<in>set stories. map_of (read_cache ext cache contents lang stories) (sid s) \<noteq> None"
  shows "length (read_cache ext cache contents lang stories) = length stories"
proof -
  have "cached_result ext cache contents lang s
          = Some (the (cached_result ext cache contents lang s))"
    if s: "s \<in> set stories" for s
  proof -
    obtain r where "map_of (read_cache ext cache contents lang stories) (sid s) = Some r"
      using c s by auto
    with d s have "cached_result ext cache contents lang s = Some r" by (rule read_cache_entry)
    then show ?thesis by simp
  qed
  with d have "read_cache ext cache contents lang stories
                 = map (\<lambda>s. (sid s, the (cached_result ext cache contents lang s))) stories"
    by (rule read_cache_all)
  then show ?thesis by simp
qed

subsection \<open>What a response leaves in the cache\<close>

lemma apply_line_agrees:
  assumes d: "distinct (map sid stories)"
      and k: "inj_on (story_key ext contents lang) (set stories)"
      and o: "ascii ''other'' \<in> VALID_CATEGORIES ext"
      and v: "\<forall>c\<in>VALID_CATEGORIES ext. 13 \<notin> set c"
      and i: "cache_agrees ext stories contents lang st"
      and a: "apply_line ext stories contents lang line st = (Inr res, cache')"
  shows "cache_agrees ext stories contents lang (res, cache')"
proof (cases "parse_result_line ext line")
  case None
  then have "(res, cache') = st" using a by (cases st) (simp add: apply_line_skip)
  then show ?thesis using i by simp
next
  case (Some p)
  obtain num r where p: "p = (num, r)" by (cases p)
  show ?thesis
  proof (cases "0 \<le> num \<and> num < int (length stories)")
    case False
    then have "(res, cache') = st" using a Some p by (cases st) (simp add: apply_line_out_of_range)
    then show ?thesis using i by simp
  next
    case True
    let ?s0 = "stories ! nat num"
    have "nat num < length stories" using True by linarith
    then have s0: "?s0 \<in> set stories" by (rule nth_mem)
    have w: "well_formed ext r" using o v Some p by (auto intro: well_formed_parse_result_line)
    have enc: "encodable (serialize_result r)"
    proof (rule ccontr)
      assume "\<not> encodable (serialize_result r)"
      then have "fst (apply_line ext stories contents lang line st) = Inl UnicodeEncodeError"
        using Some p True by (simp add: apply_line_raises)
      then show False using a by simp
    qed
    have "apply_line ext stories contents lang line st =
               (Inr (AList.update (sid ?s0) r (fst st)),
                (snd st)(story_key ext contents lang ?s0 \<mapsto> serialize_result r))"
      using Some p True enc by (simp add: apply_line_entry)
    then have e: "res = AList.update (sid ?s0) r (fst st)"
      "cache' = (snd st)(story_key ext contents lang ?s0 \<mapsto> serialize_result r)"
      using a by simp_all
    show ?thesis
      unfolding cache_agrees_def e fst_conv snd_conv
    proof (intro ballI allI impI)
      fix s r'
      assume s: "s \<in> set stories"
        and m: "map_of (AList.update (sid ?s0) r (fst st)) (sid s) = Some r'"
      show "((snd st)(story_key ext contents lang ?s0 \<mapsto> serialize_result r))
              (story_key ext contents lang s) = Some (serialize_result r') \<and> well_formed ext r'"
      proof (cases "sid s = sid ?s0")
        case True
        then have "s = ?s0" using d s s0 by (rule_tac sid_inj)
        moreover have "r' = r" using m True by (simp add: update_conv')
        ultimately show ?thesis using w by simp
      next
        case False
        then have "map_of (fst st) (sid s) = Some r'" using m by (simp add: update_conv')
        then have old: "snd st (story_key ext contents lang s) = Some (serialize_result r')"
          "well_formed ext r'"
          using i s unfolding cache_agrees_def by blast+
        have "s \<noteq> ?s0" using False by auto
        then have "story_key ext contents lang s \<noteq> story_key ext contents lang ?s0"
          using k s s0 by (auto dest: inj_onD)
        then show ?thesis using old by simp
      qed
    qed
  qed
qed

lemma response_loop_agrees:
  assumes "distinct (map sid stories)"
      and "inj_on (story_key ext contents lang) (set stories)"
      and "ascii ''other'' \<in> VALID_CATEGORIES ext"
      and "\<forall>c\<in>VALID_CATEGORIES ext. 13 \<notin> set c"
      and "cache_agrees ext stories contents lang st"
      and "response_loop ext stories contents lang ls st = (Inr res, cache')"
  shows "cache_agrees ext stories contents lang (res, cache')"
  using assms(5,6)
proof (induction ls arbitrary: st)
  case Nil
  then have "(res, cache') = st" by (cases st) simp
  with Nil show ?case by simp
next
  case (Cons l ls)
  obtain x c1 where a: "apply_line ext stories contents lang l st = (x, c1)"
    by (cases "apply_line ext stories contents lang l st")
  show ?case
  proof (cases x)
    case (Inl e)
    with a Cons.prems(2) show ?thesis by simp
  next
    case (Inr r1)
    have "cache_agrees ext stories contents lang (r1, c1)"
      using assms(1-4) Cons.prems(1) a [unfolded Inr] by (rule apply_line_agrees)
    moreover have "response_loop ext stories contents lang ls (r1, c1) = (Inr res, cache')"
      using Cons.prems(2) a Inr by simp
    ultimately show ?thesis by (rule Cons.IH)
  qed
qed

lemma parse_response_agrees:
  assumes "distinct (map sid stories)"
      and "inj_on (story_key ext contents lang) (set stories)"
      and "ascii ''other'' \<in> VALID_CATEGORIES ext"
      and "\<forall>c\<in>VALID_CATEGORIES ext. 13 \<notin> set c"
      and "parse_response ext stories contents lang reply cache = (Inr res, cache')"
  shows "cache_agrees ext stories contents lang (res, cache')"
proof -
  have "cache_agrees ext stories contents lang ([], cache)" by (simp add: cache_agrees_def)
  with assms(1-4) show ?thesis
    using assms(5) unfolding parse_response_def by (rule response_loop_agrees)
qed

lemma attempts_result:
  "attempts ext gen cache stories contents lang cached left a = (res, cache', evs) \<Longrightarrow>
     res = cached
     \<or> (\<exists>reply. parse_response ext stories contents lang reply cache = (Inr res, cache'))"
proof (induction left arbitrary: a res cache' evs)
  case 0
  then show ?case by simp
next
  case (Suc left)
  show ?case
  proof (cases "gen a")
    case (Ok reply)
    obtain x c1 where p: "parse_response ext stories contents lang reply cache = (x, c1)"
      by (cases "parse_response ext stories contents lang reply cache")
    show ?thesis
    proof (cases x)
      case (Inl e)
      with Suc.prems Ok p show ?thesis by simp
    next
      case (Inr r1)
      with Suc.prems Ok p have "r1 = res" "c1 = cache'" by simp_all
      with p Inr show ?thesis by blast
    qed
  next
    case Failure
    with Suc.prems show ?thesis by simp
  next
    case (Status code)
    show ?thesis
    proof (cases "code = 429")
      case False
      with Status Suc.prems show ?thesis by simp
    next
      case True
      then obtain evs' where
        "attempts ext gen cache stories contents lang cached left (Suc a) = (res, cache', evs')"
        using Suc.prems Status by (auto split: prod.splits)
      then show ?thesis by (rule Suc.IH)
    qed
  qed
qed

lemma process_stories_result:
  assumes "process_stories ext gen cache api_key stories contents ch = (res, cache', evs)"
      and "api_key \<noteq> []" and "stories \<noteq> []"
  shows "(res = read_cache ext cache contents (language ch) stories
          \<and> (length res = length stories \<longrightarrow> cache' = cache))
     \<or> (\<exists>reply. parse_response ext stories contents (language ch) reply cache = (Inr res, cache'))"
proof (cases "length (read_cache ext cache contents (language ch) stories) = length stories")
  case True
  then show ?thesis using assms by (auto simp: process_stories_def Let_def)
next
  case False
  then have "attempts ext gen cache stories contents (language ch)
               (read_cache ext cache contents (language ch) stories) 3 0 = (res, cache', evs)"
    using assms by (simp add: process_stories_def Let_def)
  then have "res = read_cache ext cache contents (language ch) stories
     \<or> (\<exists>reply. parse_response ext stories contents (language ch) reply cache = (Inr res, cache'))"
    by (rule attempts_result)
  then show ?thesis using False by auto
qed

lemma process_stories_cached:
  assumes d: "distinct (map sid stories)"
      and h: "\<And>s. s \<in> set stories \<Longrightarrow>
                cached_result ext cache contents (language ch) s = Some (f s)"
      and n: "api_key \<noteq> []" "stories \<noteq> []"
  shows "process_stories ext gen cache api_key stories contents ch =
           (map (\<lambda>s. (sid s, f s)) stories, cache, [])"
proof -
  have "read_cache ext cache contents (language ch) stories = map (\<lambda>s. (sid s, f s)) stories"
    using d h by (rule read_cache_all)
  then show ?thesis using n by (simp add: process_stories_def Let_def)
qed

text \<open>
  Claim C1 as amended (idempotence of the enrichment cache).  Let the stories have
  distinct ids and distinct cache keys, let \<open>other\<close> be a valid category and no valid
  category hold a carriage return.  If a call of the enricher returned a result for
  every story, and no title or summary among the results starts or ends with white
  space or holds a carriage return, then a second call with the same stories, contents
  and channel, on the cache the first call left, makes no request to the generation
  API, leaves the cache as it is, and returns for every story the result the first call
  returned.
\<close>

theorem process_stories_second_call:
  assumes d: "distinct (map sid stories)"
      and k: "inj_on (story_key ext contents (language ch)) (set stories)"
      and o: "ascii ''other'' \<in> VALID_CATEGORIES ext"
      and v: "\<forall>c\<in>VALID_CATEGORIES ext. 13 \<notin> set c"
      and f: "process_stories ext gen1 cache0 api_key stories contents ch = (res1, cache1, evs1)"
      and c: "\<forall>s\<in>set stories. map_of res1 (sid s) \<noteq> None"
      and p: "\<forall>(i, r)\<in>set res1. plain_text (translation r) \<and> plain_text (summary r)"
  shows "process_stories ext gen2 cache1 api_key stories contents ch =
           (map (\<lambda>s. (sid s, the (map_of res1 (sid s)))) stories, cache1, [])"
proof (cases "stories = []")
  case True
  then show ?thesis using f by (simp add: process_stories_def)
next
  case False
  then obtain s0 where s0: "s0 \<in> set stories" by (cases stories) auto
  have key: "api_key \<noteq> []"
  proof
    assume "api_key = []"
    then have "res1 = []" using f by (simp add: process_stories_def)
    then show False using c s0 by simp
  qed
  let ?lang = "language ch"
  have hit: "cached_result ext cache1 contents ?lang s = Some (the (map_of res1 (sid s)))"
    if s: "s \<in> set stories" for s
  proof -
    obtain r where r: "map_of res1 (sid s) = Some r" using c s by auto
    then have "(sid s, r) \<in> set res1" by (rule map_of_SomeD)
    then have pl: "plain_text (translation r)" "plain_text (summary r)" using p by auto
    from process_stories_result[OF f key False]
    show ?thesis
    proof
      assume a: "res1 = read_cache ext cache0 contents ?lang stories
                  \<and> (length res1 = length stories \<longrightarrow> cache1 = cache0)"
      then have "length res1 = length stories"
        using d c by (simp add: read_cache_complete)
      then have "cache1 = cache0" using a by simp
      moreover have "cached_result ext cache0 contents ?lang s = Some r"
        using d s r a by (intro read_cache_entry) simp_all
      ultimately show ?thesis using r by simp
    next
      assume "\<exists>reply. parse_response ext stories contents ?lang reply cache0 = (Inr res1, cache1)"
      then obtain reply where
        q: "parse_response ext stories contents ?lang reply cache0 = (Inr res1, cache1)" by blast
      have "cache_agrees ext stories contents ?lang (res1, cache1)"
        using d k o v q by (rule parse_response_agrees)
      then have "cache1 (story_key ext contents ?lang s) = Some (serialize_result r)"
        "well_formed ext r"
        using s r unfolding cache_agrees_def by auto
      then have "cached_result ext cache1 contents ?lang s = Some r"
        using pl by (rule cached_result_serialized)
      then show ?thesis using r by simp
    qed
  qed
  show ?thesis
    using d hit key False by (rule process_stories_cached)
qed

theorem process_stories_second_call_witness:
  "distinct (map sid one_story)
   \<and> inj_on (story_key example_externals Map.empty (language en_channel)) (set one_story)
   \<and> ascii ''other'' \<in> VALID_CATEGORIES example_externals
   \<and> fst (process_stories example_externals plain_reply Map.empty ''key'' one_story Map.empty
            en_channel)
       = [(7, \<lparr>res_category = ascii ''ai'', res_is_top = True, translation = ascii ''Tea'',
                summary = ascii ''Time''\<rparr>)]
   \<and> snd (snd (process_stories example_externals plain_reply Map.empty ''key'' one_story
                 Map.empty en_channel)) = [ApiCall 0]
   \<and> process_stories example_externals broken
        (fst (snd (process_stories example_externals plain_reply Map.empty ''key'' one_story
                     Map.empty en_channel)))
        ''key'' one_story Map.empty en_channel
       = ([(7, \<lparr>res_category = ascii ''ai'', res_is_top = True, translation = ascii ''Tea'',
                 summary = ascii ''Time''\<rparr>)],
          fst (snd (process_stories example_externals plain_reply Map.empty ''key'' one_story
                      Map.empty en_channel)),
          [])"
proof -
  let ?first = "process_stories example_externals plain_reply Map.empty ''key'' one_story
                  Map.empty en_channel"
  have d: "distinct (map sid one_story)" by code_simp
  have k: "inj_on (story_key example_externals Map.empty (language en_channel)) (set one_story)"
    by (simp add: one_story_def)
  have o: "ascii ''other'' \<in> VALID_CATEGORIES example_externals" by code_simp
  have v: "\<forall>c\<in>VALID_CATEGORIES example_externals. 13 \<notin> set c"
    by (simp add: example_externals_def ascii_def)
  have r: "fst ?first
       = [(7, \<lparr>res_category = ascii ''ai'', res_is_top = True, translation = ascii ''Tea'',
                summary = ascii ''Time''\<rparr>)]"
    by code_simp
  have e: "snd (snd ?first) = [ApiCall 0]" by code_simp
  have f: "?first = (fst ?first, fst (snd ?first), snd (snd ?first))" by simp
  have c: "\<forall>s\<in>set one_story. map_of (fst ?first) (sid s) \<noteq> None"
    unfolding r by (simp add: one_story_def)
  have "plain_text (ascii ''Tea'')" "plain_text (ascii ''Time'')" by code_simp+
  then have p: "\<forall>(i, r)\<in>set (fst ?first). plain_text (translation r) \<and> plain_text (summary r)"
    unfolding r by simp
  have n: "map (\<lambda>s. (sid s, the (map_of (fst ?first) (sid s)))) one_story
       = [(7, \<lparr>res_category = ascii ''ai'', res_is_top = True, translation = ascii ''Tea'',
                summary = ascii ''Time''\<rparr>)]"
    unfolding r by (simp add: one_story_def)
  have t: "process_stories example_externals broken (fst (snd ?first)) ''key'' one_story Map.empty
             en_channel
       = ([(7, \<lparr>res_category = ascii ''ai'', res_is_top = True, translation = ascii ''Tea'',
                 summary = ascii ''Time''\<rparr>)],
          fst (snd ?first), [])"
    using process_stories_second_call [OF d k o v f c p, of broken] unfolding n .
  from d k o r e t show ?thesis by blast
qed

text \<open>
  Claim C1 as stated fails in three ways.  A title that the response quotes with a space
  inside the quotes is returned with the space by the first call and written to the cache
  with it; reading the cache strips the field, and the second call returns the title
  without the space.  A carriage return in a title is returned by the first call and
  written to the cache; reading the cache gives a line feed in its place, and so does the
  second call.  And when every request of the first call fails, nothing is cached, and
  the second call sends a request again.
\<close>

theorem process_stories_second_call_counterexample:
  "fst (process_stories example_externals quoted_reply Map.empty ''key'' one_story Map.empty
          en_channel)
     = [(7, \<lparr>res_category = ascii ''ai'', res_is_top = True, translation = ascii '' x'',
              summary = ascii ''s''\<rparr>)]
   \<and> fst (process_stories example_externals quoted_reply
            (fst (snd (process_stories example_externals quoted_reply Map.empty ''key'' one_story
                         Map.empty en_channel)))
            ''key'' one_story Map.empty en_channel)
     = [(7, \<lparr>res_category = ascii ''ai'', res_is_top = True, translation = ascii ''x'',
              summary = ascii ''s''\<rparr>)]
   \<and> fst (process_stories example_externals cr_reply Map.empty ''key'' one_story Map.empty
            en_channel)
     = [(7, \<lparr>res_category = ascii ''ai'', res_is_top = True,
              translation = ascii ''A'' @ [13] @ ascii ''B'', summary = ascii ''s''\<rparr>)]
   \<and> fst (process_stories example_externals cr_reply
            (fst (snd (process_stories example_externals cr_reply Map.empty ''key'' one_story
                         Map.empty en_channel)))
            ''key'' one_story Map.empty en_channel)
     = [(7, \<lparr>res_category = ascii ''ai'', res_is_top = True,
              translation = ascii ''A'' @ [10] @ ascii ''B'', summary = ascii ''s''\<rparr>)]
   \<and> fst (snd (process_stories example_externals broken Map.empty ''key'' one_story Map.empty
                 en_channel))
        (story_key example_externals Map.empty ''en'' (hd one_story)) = None
   \<and> snd (snd (process_stories example_externals quoted_reply
                 (fst (snd (process_stories example_externals broken Map.empty ''key'' one_story
                              Map.empty en_channel)))
                 ''key'' one_story Map.empty en_channel))
     = [ApiCall 0]"
  by code_simp

end
